theory Spec2Isabelle
  imports Main "HOL-Library.FSet"
begin

section \<open>Strings (packages strings and path of the Go standard library)\<close>

text \<open>
  The crawler is written against the Go standard library, which is not part of the
  repository. This section and the next embed the library functions the crawler calls,
  following the library's source (Go 1.22) function by function and keeping its names.
  A Go string is a sequence of bytes; \<open>string\<close> is a list of 8-bit characters.
  \<open>strings.ToLower\<close> is embedded on ASCII letters; bytes from 128 on, where Go
  lower-cases the runes they encode, are left as they are.
\<close>

definition byte :: "char \<Rightarrow> nat" where
  "byte c = of_char c"

definition HasPrefix :: "string \<Rightarrow> string \<Rightarrow> bool" where
  "HasPrefix s pre = (take (length pre) s = pre)"

definition HasSuffix :: "string \<Rightarrow> string \<Rightarrow> bool" where
  "HasSuffix s suf = (length suf \<le> length s \<and> drop (length s - length suf) s = suf)"

definition TrimSuffix :: "string \<Rightarrow> string \<Rightarrow> string" where
  "TrimSuffix s suf = (if HasSuffix s suf then take (length s - length suf) s else s)"

fun Index :: "string \<Rightarrow> string \<Rightarrow> nat option" where
  "Index [] sep = (if sep = [] then Some 0 else None)"
| "Index (c # s) sep =
     (if HasPrefix (c # s) sep then Some 0 else map_option Suc (Index s sep))"

definition LastIndex :: "string \<Rightarrow> string \<Rightarrow> nat option" where
  "LastIndex s sep =
     map_option (\<lambda>k. length s - length sep - k) (Index (rev s) (rev sep))"

definition Contains :: "string \<Rightarrow> string \<Rightarrow> bool" where
  "Contains s sep = (Index s sep \<noteq> None)"

definition Cut :: "string \<Rightarrow> string \<Rightarrow> string \<times> string \<times> bool" where
  "Cut s sep =
     (case Index s sep of
        None \<Rightarrow> (s, [], False)
      | Some i \<Rightarrow> (take i s, drop (i + length sep) s, True))"

definition ToLower :: "string \<Rightarrow> string" where
  "ToLower s =
     map (\<lambda>c. case map_of (zip ''ABCDEFGHIJKLMNOPQRSTUVWXYZ'' ''abcdefghijklmnopqrstuvwxyz'') c of
                 None \<Rightarrow> c | Some l \<Rightarrow> l) s"

definition path_Ext :: "string \<Rightarrow> string" where
  "path_Ext p =
     (let seg = takeWhile (\<lambda>c. c \<noteq> CHR ''/'') (rev p)
      in if CHR ''.'' \<in> set seg
         then CHR ''.'' # rev (takeWhile (\<lambda>c. c \<noteq> CHR ''.'') seg)
         else [])"

section \<open>URLs (package net/url of the Go standard library)\<close>

text \<open>
  Go errors as values. The first ten are the errors of \<open>url.Parse\<close>; \<open>SitemapStatus\<close> is
  the crawler's own \<open>sitemap returned %d\<close>; \<open>ExternalError\<close> stands for an error of the
  network, of the XML decoder or of the HTML parser; \<open>Wrap\<close> is \<open>fmt.Errorf\<close> with \<open>%w\<close>.
\<close>

datatype error =
    InvalidControlCharacter
  | EmptyURL
  | MissingProtocolScheme
  | InvalidURIForRequest
  | FirstPathSegmentColon
  | MissingBracketInHost
  | InvalidPort string
  | InvalidUserinfo
  | EscapeError string
  | InvalidHostError string
  | SitemapStatus int
  | ExternalError string
  | Wrap string error

text \<open>
  A Go call either returns or panics. A function that returns \<open>(T, error)\<close> returns a
  value of \<open>error + T\<close>; where a panic is possible the result is an \<open>outcome\<close>.
\<close>

datatype panic = IndexOutOfRange | NilPointerDereference

datatype 'a outcome = Returns 'a | Panics panic

datatype encoding =
    encodePath
  | encodePathSegment
  | encodeHost
  | encodeZone
  | encodeUserPassword
  | encodeQueryComponent
  | encodeFragment

record Userinfo =
  username :: string
  password :: string
  passwordSet :: bool

record URL =
  Scheme :: string
  Opaque :: string
  User :: "Userinfo option"
  Host :: string
  Path :: string
  RawPath :: string
  OmitHost :: bool
  ForceQuery :: bool
  RawQuery :: string
  Fragment :: string
  RawFragment :: string

text \<open>The zero value of the struct, as \<open>new(URL)\<close> allocates it.\<close>

definition new_URL :: URL where
  "new_URL = \<lparr>Scheme = [], Opaque = [], User = None, Host = [], Path = [], RawPath = [],
     OmitHost = False, ForceQuery = False, RawQuery = [], Fragment = [], RawFragment = []\<rparr>"

definition isAlpha :: "char \<Rightarrow> bool" where
  "isAlpha c = (c \<in> set ''abcdefghijklmnopqrstuvwxyzABCDEFGHIJKLMNOPQRSTUVWXYZ'')"

definition isDigit :: "char \<Rightarrow> bool" where
  "isDigit c = (c \<in> set ''0123456789'')"

definition ishex :: "char \<Rightarrow> bool" where
  "ishex c = (c \<in> set ''0123456789abcdefABCDEF'')"

definition unhex :: "char \<Rightarrow> nat" where
  "unhex c =
     (if isDigit c then byte c - byte (CHR ''0'')
      else if c \<in> set ''abcdef'' then byte c - byte (CHR ''a'') + 10
      else if c \<in> set ''ABCDEF'' then byte c - byte (CHR ''A'') + 10
      else 0)"

definition shouldEscape :: "char \<Rightarrow> encoding \<Rightarrow> bool" where
  "shouldEscape c mode =
     (if isAlpha c \<or> isDigit c then False
      else if (mode = encodeHost \<or> mode = encodeZone) \<and> c \<in> set ''!$&'()*+,;=:[]<>\"'' then False
      else if c \<in> set ''-_.~'' then False
      else if c \<in> set ''$&+,/:;=?@'' \<and> mode = encodePath then c = CHR ''?''
      else if c \<in> set ''$&+,/:;=?@'' \<and> mode = encodePathSegment then c \<in> set ''/;,?''
      else if c \<in> set ''$&+,/:;=?@'' \<and> mode = encodeUserPassword then c \<in> set ''@/?:''
      else if c \<in> set ''$&+,/:;=?@'' \<and> mode = encodeQueryComponent then True
      else if c \<in> set ''$&+,/:;=?@'' \<and> mode = encodeFragment then False
      else if mode = encodeFragment \<and> c \<in> set ''!()*'' then False
      else True)"

text \<open>
  \<open>unescape\<close> makes two passes over the string: the first checks that every \<open>%\<close> is
  followed by two hexadecimal digits (and what a host may escape), the second decodes.
\<close>

fun unescape_check :: "encoding \<Rightarrow> string \<Rightarrow> error option" where
  "unescape_check mode [] = None"
| "unescape_check mode (c # s) =
     (if c = CHR ''%'' then
        (case s of
           a # b # s' \<Rightarrow>
             if \<not> ishex a \<or> \<not> ishex b then Some (EscapeError (take 3 (c # s)))
             else if mode = encodeHost \<and> unhex a < 8 \<and> [c, a, b] \<noteq> ''%25''
               then Some (EscapeError [c, a, b])
             else if mode = encodeZone \<and> [c, a, b] \<noteq> ''%25''
                 \<and> unhex a * 16 + unhex b \<noteq> byte (CHR '' '')
                 \<and> shouldEscape (char_of (unhex a * 16 + unhex b)) encodeHost
               then Some (EscapeError [c, a, b])
             else unescape_check mode s'
         | _ \<Rightarrow> Some (EscapeError (take 3 (c # s))))
      else if (mode = encodeHost \<or> mode = encodeZone) \<and> byte c < 128 \<and> shouldEscape c encodeHost
        then Some (InvalidHostError [c])
      else unescape_check mode s)"

fun unescape_decode :: "encoding \<Rightarrow> string \<Rightarrow> string" where
  "unescape_decode mode [] = []"
| "unescape_decode mode (c # s) =
     (if c = CHR ''%'' then
        (case s of
           a # b # s' \<Rightarrow> char_of (unhex a * 16 + unhex b) # unescape_decode mode s'
         | _ \<Rightarrow> [])
      else if c = CHR ''+'' \<and> mode = encodeQueryComponent then CHR '' '' # unescape_decode mode s
      else c # unescape_decode mode s)"

definition unescape :: "string \<Rightarrow> encoding \<Rightarrow> error + string" where
  "unescape s mode =
     (case unescape_check mode s of
        Some err \<Rightarrow> Inl err
      | None \<Rightarrow> Inr (unescape_decode mode s))"

definition upperhex :: string where
  "upperhex = ''0123456789ABCDEF''"

definition escape :: "string \<Rightarrow> encoding \<Rightarrow> string" where
  "escape s mode =
     concat (map (\<lambda>c.
       if c = CHR '' '' \<and> mode = encodeQueryComponent then ''+''
       else if shouldEscape c mode
         then [CHR ''%'', upperhex ! (byte c div 16), upperhex ! (byte c mod 16)]
       else [c]) s)"

definition validEncoded :: "string \<Rightarrow> encoding \<Rightarrow> bool" where
  "validEncoded s mode =
     list_all (\<lambda>c. c \<in> set ''!$&'()*+,;=:@[]%'' \<or> \<not> shouldEscape c mode) s"

definition stringContainsCTLByte :: "string \<Rightarrow> bool" where
  "stringContainsCTLByte s = list_ex (\<lambda>b. byte b < 32 \<or> byte b = 127) s"

text \<open>\<open>getScheme\<close> scans the bytes of \<open>rawURL\<close> from index \<open>i = 0\<close>.\<close>

fun getScheme_from :: "string \<Rightarrow> nat \<Rightarrow> string \<Rightarrow> error + (string \<times> string)" where
  "getScheme_from rawURL i [] = Inr ([], rawURL)"
| "getScheme_from rawURL i (c # cs) =
     (if isAlpha c then getScheme_from rawURL (i + 1) cs
      else if isDigit c \<or> c \<in> set ''+-.'' then
        (if i = 0 then Inr ([], rawURL) else getScheme_from rawURL (i + 1) cs)
      else if c = CHR '':'' then
        (if i = 0 then Inl MissingProtocolScheme
         else Inr (take i rawURL, drop (i + 1) rawURL))
      else Inr ([], rawURL))"

definition getScheme :: "string \<Rightarrow> error + (string \<times> string)" where
  "getScheme rawURL = getScheme_from rawURL 0 rawURL"

definition validOptionalPort :: "string \<Rightarrow> bool" where
  "validOptionalPort port =
     (case port of
        [] \<Rightarrow> True
      | c # ds \<Rightarrow> c = CHR '':'' \<and> list_all isDigit ds)"

definition validUserinfo :: "string \<Rightarrow> bool" where
  "validUserinfo s = list_all (\<lambda>r. isAlpha r \<or> isDigit r \<or> r \<in> set ''-._:~!$&'()*+,;=%@'') s"

definition parseHost :: "string \<Rightarrow> error + string" where
  "parseHost host =
     (if HasPrefix host ''['' then
        (case LastIndex host '']'' of
           None \<Rightarrow> Inl MissingBracketInHost
         | Some i \<Rightarrow>
             if \<not> validOptionalPort (drop (i + 1) host) then Inl (InvalidPort (drop (i + 1) host))
             else
               (case Index (take i host) ''%25'' of
                  Some zone \<Rightarrow>
                    (case unescape (take zone host) encodeHost of
                       Inl err \<Rightarrow> Inl err
                     | Inr host1 \<Rightarrow>
                         (case unescape (drop zone (take i host)) encodeZone of
                            Inl err \<Rightarrow> Inl err
                          | Inr host2 \<Rightarrow>
                              (case unescape (drop i host) encodeHost of
                                 Inl err \<Rightarrow> Inl err
                               | Inr host3 \<Rightarrow> Inr (host1 @ host2 @ host3))))
                | None \<Rightarrow> unescape host encodeHost))
      else
        (case LastIndex host '':'' of
           Some i \<Rightarrow>
             if \<not> validOptionalPort (drop i host) then Inl (InvalidPort (drop i host))
             else unescape host encodeHost
         | None \<Rightarrow> unescape host encodeHost))"

definition parseUserinfo :: "string \<Rightarrow> error + Userinfo" where
  "parseUserinfo userinfo =
     (if \<not> validUserinfo userinfo then Inl InvalidUserinfo
      else if \<not> Contains userinfo '':'' then
        (case unescape userinfo encodeUserPassword of
           Inl err \<Rightarrow> Inl err
         | Inr name \<Rightarrow> Inr \<lparr>username = name, password = [], passwordSet = False\<rparr>)
      else
        (case Cut userinfo '':'' of
           (name, pass, _) \<Rightarrow>
             (case unescape name encodeUserPassword of
                Inl err \<Rightarrow> Inl err
              | Inr name' \<Rightarrow>
                  (case unescape pass encodeUserPassword of
                     Inl err \<Rightarrow> Inl err
                   | Inr pass' \<Rightarrow>
                       Inr \<lparr>username = name', password = pass', passwordSet = True\<rparr>))))"

definition parseAuthority :: "string \<Rightarrow> error + (Userinfo option \<times> string)" where
  "parseAuthority authority =
     (case LastIndex authority ''@'' of
        None \<Rightarrow>
          (case parseHost authority of
             Inl err \<Rightarrow> Inl err
           | Inr host \<Rightarrow> Inr (None, host))
      | Some i \<Rightarrow>
          (case parseHost (drop (i + 1) authority) of
             Inl err \<Rightarrow> Inl err
           | Inr host \<Rightarrow>
               (case parseUserinfo (take i authority) of
                  Inl err \<Rightarrow> Inl err
                | Inr user \<Rightarrow> Inr (Some user, host))))"

definition setPath :: "URL \<Rightarrow> string \<Rightarrow> error + URL" where
  "setPath u p =
     (case unescape p encodePath of
        Inl err \<Rightarrow> Inl err
      | Inr path \<Rightarrow>
          Inr (u\<lparr>Path := path, RawPath := (if p = escape path encodePath then [] else p)\<rparr>))"

definition setFragment :: "URL \<Rightarrow> string \<Rightarrow> error + URL" where
  "setFragment u f =
     (case unescape f encodeFragment of
        Inl err \<Rightarrow> Inl err
      | Inr frag \<Rightarrow>
          Inr (u\<lparr>Fragment := frag,
                RawFragment := (if f = escape frag encodeFragment then [] else f)\<rparr>))"

definition EscapedPath :: "URL \<Rightarrow> string" where
  "EscapedPath u =
     (if RawPath u \<noteq> [] \<and> validEncoded (RawPath u) encodePath
         \<and> unescape (RawPath u) encodePath = Inr (Path u)
      then RawPath u
      else if Path u = ''*'' then ''*''
      else escape (Path u) encodePath)"

definition EscapedFragment :: "URL \<Rightarrow> string" where
  "EscapedFragment u =
     (if RawFragment u \<noteq> [] \<and> validEncoded (RawFragment u) encodeFragment
         \<and> unescape (RawFragment u) encodeFragment = Inr (Fragment u)
      then RawFragment u
      else escape (Fragment u) encodeFragment)"

text \<open>
  \<open>parse\<close> is split at its two assignments to \<open>rest\<close>: the query (\<open>parse_query\<close>) and the
  authority (\<open>parse_authority\<close>).
\<close>

definition parse_query :: "URL \<Rightarrow> string \<Rightarrow> URL \<times> string" where
  "parse_query url rest =
     (if HasSuffix rest ''?'' \<and> count_list rest (CHR ''?'') = 1
      then (url\<lparr>ForceQuery := True\<rparr>, take (length rest - 1) rest)
      else (case Cut rest ''?'' of (rest', query, _) \<Rightarrow> (url\<lparr>RawQuery := query\<rparr>, rest')))"

definition parse_authority :: "URL \<Rightarrow> string \<Rightarrow> bool \<Rightarrow> error + (URL \<times> string)" where
  "parse_authority url rest viaRequest =
     (if (Scheme url \<noteq> [] \<or> \<not> viaRequest \<and> \<not> HasPrefix rest ''///'') \<and> HasPrefix rest ''//''
      then
        (let authority = drop 2 rest;
             i = Index authority ''/'';
             rest' = (case i of None \<Rightarrow> [] | Some k \<Rightarrow> drop k authority);
             authority' = (case i of None \<Rightarrow> authority | Some k \<Rightarrow> take k authority)
         in case parseAuthority authority' of
              Inl err \<Rightarrow> Inl err
            | Inr (user, host) \<Rightarrow> Inr (url\<lparr>User := user, Host := host\<rparr>, rest'))
      else if Scheme url \<noteq> [] \<and> HasPrefix rest ''/''
        then Inr (url\<lparr>OmitHost := True\<rparr>, rest)
      else Inr (url, rest))"

definition parse :: "string \<Rightarrow> bool \<Rightarrow> error + URL" where
  "parse rawURL viaRequest =
     (if stringContainsCTLByte rawURL then Inl InvalidControlCharacter
      else if rawURL = [] \<and> viaRequest then Inl EmptyURL
      else if rawURL = ''*'' then Inr (new_URL\<lparr>Path := ''*''\<rparr>)
      else
        (case getScheme rawURL of
           Inl err \<Rightarrow> Inl err
         | Inr (scheme, rest0) \<Rightarrow>
             (case parse_query (new_URL\<lparr>Scheme := ToLower scheme\<rparr>) rest0 of
                (url, rest) \<Rightarrow>
                  if \<not> HasPrefix rest ''/'' \<and> Scheme url \<noteq> [] then Inr (url\<lparr>Opaque := rest\<rparr>)
                  else if \<not> HasPrefix rest ''/'' \<and> viaRequest then Inl InvalidURIForRequest
                  else if \<not> HasPrefix rest ''/'' \<and> Contains (fst (Cut rest ''/'')) '':''
                    then Inl FirstPathSegmentColon
                  else
                    (case parse_authority url rest viaRequest of
                       Inl err \<Rightarrow> Inl err
                     | Inr (url', rest') \<Rightarrow> setPath url' rest'))))"

definition url_Parse :: "string \<Rightarrow> error + URL" where
  "url_Parse rawURL =
     (case Cut rawURL ''#'' of
        (u, frag, _) \<Rightarrow>
          (case parse u False of
             Inl err \<Rightarrow> Inl err
           | Inr url \<Rightarrow> if frag = [] then Inr url else setFragment url frag))"

definition Userinfo_String :: "Userinfo \<Rightarrow> string" where
  "Userinfo_String u =
     escape (username u) encodeUserPassword
       @ (if passwordSet u then '':'' @ escape (password u) encodeUserPassword else [])"

definition URL_String :: "URL \<Rightarrow> string" where
  "URL_String u =
     (let buf = (if Scheme u \<noteq> [] then Scheme u @ '':'' else []);
          buf =
            (if Opaque u \<noteq> [] then buf @ Opaque u
             else
               (let buf =
                      (if Scheme u \<noteq> [] \<or> Host u \<noteq> [] \<or> User u \<noteq> None then
                         (if OmitHost u \<and> Host u = [] \<and> User u = None then buf
                          else
                            buf
                              @ (if Host u \<noteq> [] \<or> Path u \<noteq> [] \<or> User u \<noteq> None then ''//'' else [])
                              @ (case User u of None \<Rightarrow> [] | Some ui \<Rightarrow> Userinfo_String ui @ ''@'')
                              @ (if Host u \<noteq> [] then escape (Host u) encodeHost else []))
                       else buf);
                    path = EscapedPath u;
                    buf = (if path \<noteq> [] \<and> hd path \<noteq> CHR ''/'' \<and> Host u \<noteq> [] then buf @ ''/'' else buf);
                    buf = (if buf = [] \<and> Contains (fst (Cut path ''/'')) '':'' then buf @ ''./'' else buf)
                in buf @ path));
          buf = (if ForceQuery u \<or> RawQuery u \<noteq> [] then buf @ ''?'' @ RawQuery u else buf);
          buf = (if Fragment u \<noteq> [] then buf @ ''#'' @ EscapedFragment u else buf)
      in buf)"

text \<open>
  \<open>resolvePath\<close> cuts the joined path at every \<open>/\<close> and handles one element per
  iteration; the loop state is the buffer \<open>dst\<close> and the flag \<open>first\<close>, and the loop
  also yields the last element it saw.
\<close>

definition resolvePath_elem :: "string \<Rightarrow> string \<times> bool \<Rightarrow> string \<times> bool" where
  "resolvePath_elem elem st =
     (case st of
        (dst, first) \<Rightarrow>
          if elem = ''.'' then (dst, False)
          else if elem = ''..'' then
            (case LastIndex (drop 1 dst) ''/'' of
               None \<Rightarrow> (''/'', True)
             | Some index \<Rightarrow> (''/'' @ take index (drop 1 dst), first))
          else ((if \<not> first then dst @ ''/'' else dst) @ elem, False))"

lemma HasPrefix_length: "HasPrefix s pre \<Longrightarrow> length pre \<le> length s"
proof -
  assume "HasPrefix s pre"
  then have "length (take (length pre) s) = length pre"
    by (simp only: HasPrefix_def)
  then show ?thesis by simp
qed

lemma Index_bound: "Index s sep = Some i \<Longrightarrow> i + length sep \<le> length s"
proof (induction s arbitrary: i)
  case Nil
  then show ?case by (simp split: if_splits)
next
  case (Cons c s)
  show ?case
  proof (cases "HasPrefix (c # s) sep")
    case True
    from HasPrefix_length [OF True] True Cons.prems show ?thesis by simp
  next
    case False
    with Cons.prems obtain j where "Index s sep = Some j" "i = Suc j" by auto
    with Cons.IH [of j] show ?thesis by simp
  qed
qed

function resolvePath_loop :: "string \<Rightarrow> string \<times> bool \<Rightarrow> (string \<times> bool) \<times> string" where
  "resolvePath_loop remaining st =
     (case Index remaining ''/'' of
        None \<Rightarrow> (resolvePath_elem remaining st, remaining)
      | Some i \<Rightarrow>
          resolvePath_loop (drop (i + 1) remaining) (resolvePath_elem (take i remaining) st))"
  by pat_completeness auto
termination
proof (relation "measure (\<lambda>(remaining, st). length remaining)")
  show "wf (measure (\<lambda>(remaining, st). length remaining))" by simp
next
  fix remaining :: string and st :: "string \<times> bool" and i
  assume "Index remaining ''/'' = Some i"
  from Index_bound [OF this]
  show "((drop (i + 1) remaining, resolvePath_elem (take i remaining) st), remaining, st)
          \<in> measure (\<lambda>(remaining, st). length remaining)"
    by simp
qed

declare resolvePath_loop.simps [simp del]

definition resolvePath :: "string \<Rightarrow> string \<Rightarrow> string" where
  "resolvePath base ref =
     (let full =
            (if ref = [] then base
             else if hd ref \<noteq> CHR ''/'' then
               (case LastIndex base ''/'' of
                  None \<Rightarrow> ref
                | Some i \<Rightarrow> take (i + 1) base @ ref)
             else ref)
      in if full = [] then []
         else
           (case resolvePath_loop full (''/'', True) of
              ((dst, first), elem) \<Rightarrow>
                (let r = (if elem = ''.'' \<or> elem = ''..'' then dst @ ''/'' else dst)
                 in if length r > 1 \<and> r ! 1 = CHR ''/'' then drop 1 r else r)))"

text \<open>\<open>ResolveReference\<close> calls \<open>setPath\<close> and ignores its error.\<close>

definition setPath_ignore :: "URL \<Rightarrow> string \<Rightarrow> URL" where
  "setPath_ignore u p = (case setPath u p of Inl err \<Rightarrow> u | Inr u' \<Rightarrow> u')"

text \<open>
  The receiver \<open>u\<close> is a pointer and may be \<open>nil\<close> (\<open>None\<close>). The method copies \<open>ref\<close> and
  reads \<open>u.Scheme\<close> first when \<open>ref\<close> has no scheme, which panics on \<open>nil\<close>; when \<open>ref\<close> has a
  scheme it returns without reading \<open>u\<close>.
\<close>

definition ResolveReference :: "URL option \<Rightarrow> URL \<Rightarrow> URL outcome" where
  "ResolveReference u ref =
     (if Scheme ref \<noteq> [] then Returns (setPath_ignore ref (resolvePath (EscapedPath ref) []))
      else
        (case u of
           None \<Rightarrow> Panics NilPointerDereference
         | Some u \<Rightarrow>
             Returns
               (let url = ref\<lparr>Scheme := Scheme u\<rparr>
                in if Host ref \<noteq> [] \<or> User ref \<noteq> None
                     then setPath_ignore url (resolvePath (EscapedPath ref) [])
                   else if Opaque ref \<noteq> [] then url\<lparr>User := None, Host := [], Path := []\<rparr>
                   else
                     (let url =
                            (if Path ref = [] \<and> \<not> ForceQuery ref \<and> RawQuery ref = [] then
                               (let url = url\<lparr>RawQuery := RawQuery u\<rparr>
                                in if Fragment ref = []
                                   then url\<lparr>Fragment := Fragment u, RawFragment := RawFragment u\<rparr>
                                   else url)
                             else url)
                      in if Path ref = [] \<and> Opaque u \<noteq> []
                           then url\<lparr>Opaque := Opaque u, User := None, Host := [], Path := []\<rparr>
                         else setPath_ignore (url\<lparr>Host := Host u, User := User u\<rparr>)
                                (resolvePath (EscapedPath u) (EscapedPath ref))))))"


section \<open>The frontier queue (package crawl, type Queue)\<close>

text \<open>
  The Go struct has three fields: the slice \<open>items\<close>, the map \<open>visited\<close> of type
  \<open>map[string]bool\<close> and the read position \<open>idx\<close>. The only write to the map is
  \<open>q.visited[url] = true\<close> in \<open>Add\<close>, so the map is the finite set of its keys:
  \<open>q.visited[url]\<close> is membership and \<open>len(q.visited)\<close> is the cardinality.
  The index expression \<open>q.items[q.idx]\<close> panics when it is out of range.
\<close>

record Queue =
  items :: "string list"
  visited :: "string fset"
  idx :: nat

definition NewQueue :: Queue where
  "NewQueue = \<lparr>items = [], visited = {||}, idx = 0\<rparr>"

definition Queue_Add :: "Queue \<Rightarrow> string \<Rightarrow> Queue" where
  "Queue_Add q url =
     (if url |\<in>| visited q then q
      else q\<lparr>visited := finsert url (visited q), items := items q @ [url]\<rparr>)"

definition Queue_HasNext :: "Queue \<Rightarrow> bool" where
  "Queue_HasNext q = (idx q < length (items q))"

definition Queue_Next :: "Queue \<Rightarrow> (string \<times> Queue) outcome" where
  "Queue_Next q =
     (if idx q < length (items q) then Returns (items q ! idx q, q\<lparr>idx := idx q + 1\<rparr>)
      else Panics IndexOutOfRange)"

definition Queue_Visited :: "Queue \<Rightarrow> nat" where
  "Queue_Visited q = fcard (visited q)"

definition Queue_All :: "Queue \<Rightarrow> string list" where
  "Queue_All q = items q"

section \<open>URL rules (package crawl)\<close>

text \<open>\<open>staticExtensions\<close> is a \<open>map[string]bool\<close> literal; a missing key reads as false.\<close>

definition staticExtensions :: "string \<Rightarrow> bool" where
  "staticExtensions ext =
     (ext \<in> set [''.png'', ''.jpg'', ''.jpeg'', ''.gif'',
        ''.svg'', ''.webp'', ''.ico'', ''.bmp'',
        ''.css'', ''.js'', ''.mjs'',
        ''.woff'', ''.woff2'', ''.ttf'', ''.eot'',
        ''.mp4'', ''.webm'', ''.mp3'', ''.wav'',
        ''.zip'', ''.tar'', ''.gz'',
        ''.pdf'', ''.doc'', ''.docx'', ''.xls'', ''.xlsx''])"

definition IsSameDomain :: "string \<Rightarrow> string \<Rightarrow> bool" where
  "IsSameDomain rawURL domain =
     (case url_Parse rawURL of
        Inl err \<Rightarrow> False
      | Inr parsed \<Rightarrow> Host parsed = domain)"

definition IsStaticAsset :: "string \<Rightarrow> bool" where
  "IsStaticAsset rawURL =
     (case url_Parse rawURL of
        Inl err \<Rightarrow> False
      | Inr parsed \<Rightarrow> staticExtensions (ToLower (path_Ext (Path parsed))))"

definition NormalizeURL :: "string \<Rightarrow> string" where
  "NormalizeURL rawURL =
     (case url_Parse rawURL of
        Inl err \<Rightarrow> rawURL
      | Inr parsed \<Rightarrow>
          (let parsed = parsed\<lparr>Fragment := []\<rparr>;
               parsed = (if Path parsed \<noteq> ''/''
                         then parsed\<lparr>Path := TrimSuffix (Path parsed) ''/''\<rparr>
                         else parsed)
           in URL_String parsed))"

section \<open>Discovery (package crawl, file discover.go)\<close>

text \<open>
  \<open>core.Fetcher\<close> is an interface with the one method \<open>Fetch\<close>, which returns a pointer
  and an error; either may be \<open>nil\<close>. An implementation may keep state, so a fetcher
  takes its state and returns the new one.
\<close>

record FetchResult =
  URL :: string
  StatusCode :: int
  HTML :: string

type_synonym 's Fetcher = "'s \<Rightarrow> string \<Rightarrow> (FetchResult option \<times> error option) \<times> 's"

text \<open>
  What lies outside the repository: the HTTP client (\<open>client.Do\<close>, with the body as
  \<open>io.ReadAll\<close> reads it), \<open>xml.Unmarshal\<close> into a \<open>sitemapIndex\<close>, and goquery
  (\<open>NewDocumentFromReader\<close>, then \<open>Find("a[href]")\<close>: the pairs \<open>(href, exists)\<close> that
  \<open>Attr("href")\<close> gives for the selected elements, in document order). They are
  parameters of the embedding, collected in the record \<open>extern\<close>.
\<close>

record Response =
  resp_StatusCode :: int
  resp_Body :: "error + string"

record sitemapURL =
  Loc :: string

record sitemapIndex =
  URLs :: "sitemapURL list"

record extern =
  client_Do :: "URL \<Rightarrow> error + Response"
  xml_Unmarshal :: "string \<Rightarrow> error + sitemapIndex"
  goquery_a_href :: "string \<Rightarrow> error + (string \<times> bool) list"

text \<open>
  \<open>http.NewRequestWithContext\<close> with the method GET and a context that is not nil fails
  exactly when the URL does not parse; it strips an empty port from the host of the
  parsed URL (\<open>removeEmptyPort\<close>). The request is that URL.
\<close>

definition hasPort :: "string \<Rightarrow> bool" where
  "hasPort s =
     (case LastIndex s '':'' of
        None \<Rightarrow> False
      | Some i \<Rightarrow> (case LastIndex s '']'' of None \<Rightarrow> True | Some j \<Rightarrow> j < i))"

definition removeEmptyPort :: "string \<Rightarrow> string" where
  "removeEmptyPort host = (if hasPort host then TrimSuffix host '':'' else host)"

definition NewRequestWithContext :: "string \<Rightarrow> error + URL" where
  "NewRequestWithContext url =
     (case url_Parse url of
        Inl err \<Rightarrow> Inl err
      | Inr u \<Rightarrow> Inr (u\<lparr>Host := removeEmptyPort (Host u)\<rparr>))"

text \<open>The \<open>range\<close> loop of \<open>discoverFromSitemap\<close>, with the slice \<open>urls\<close> as accumulator.\<close>

fun sitemap_range :: "string \<Rightarrow> sitemapURL list \<Rightarrow> string list \<Rightarrow> string list" where
  "sitemap_range domain [] urls = urls"
| "sitemap_range domain (u # us) urls =
     sitemap_range domain us
       (if IsSameDomain (Loc u) domain \<and> \<not> IsStaticAsset (Loc u)
        then urls @ [NormalizeURL (Loc u)] else urls)"

definition discoverFromSitemap :: "extern \<Rightarrow> string \<Rightarrow> string \<Rightarrow> error + string list" where
  "discoverFromSitemap env sitemapURL domain =
     (case NewRequestWithContext sitemapURL of
        Inl err \<Rightarrow> Inl err
      | Inr req \<Rightarrow>
          (case client_Do env req of
             Inl err \<Rightarrow> Inl err
           | Inr resp \<Rightarrow>
               if resp_StatusCode resp \<noteq> 200 then Inl (SitemapStatus (resp_StatusCode resp))
               else
                 (case resp_Body resp of
                    Inl err \<Rightarrow> Inl err
                  | Inr body \<Rightarrow>
                      (case xml_Unmarshal env body of
                         Inl err \<Rightarrow> Inl err
                       | Inr sitemap \<Rightarrow> Inr (sitemap_range domain (URLs sitemap) [])))))"

definition resolveURL :: "string \<Rightarrow> URL option \<Rightarrow> string outcome" where
  "resolveURL href base =
     (if HasPrefix href ''mailto:'' \<or> HasPrefix href ''javascript:''
         \<or> HasPrefix href ''tel:'' \<or> HasPrefix href ''#''
      then Returns []
      else
        (case url_Parse href of
           Inl err \<Rightarrow> Returns []
         | Inr parsed \<Rightarrow>
             (case ResolveReference base parsed of
                Panics p \<Rightarrow> Panics p
              | Returns resolved \<Rightarrow> Returns (URL_String (resolved\<lparr>Fragment := []\<rparr>)))))"

text \<open>The callback of \<open>Each\<close> in \<open>extractLinks\<close>, run over the selection in order.\<close>

fun extractLinks_each :: "URL option \<Rightarrow> (string \<times> bool) list \<Rightarrow> string list \<Rightarrow> string list outcome" where
  "extractLinks_each base [] links = Returns links"
| "extractLinks_each base ((href, exists) # sel) links =
     (if \<not> exists \<or> href = [] then extractLinks_each base sel links
      else
        (case resolveURL href base of
           Panics p \<Rightarrow> Panics p
         | Returns resolved \<Rightarrow>
             extractLinks_each base sel (if resolved \<noteq> [] then links @ [resolved] else links)))"

definition extractLinks :: "extern \<Rightarrow> string \<Rightarrow> string \<Rightarrow> (error + string list) outcome" where
  "extractLinks env html baseURL =
     (case goquery_a_href env html of
        Inl err \<Rightarrow> Returns (Inl err)
      | Inr sel \<Rightarrow>
          (let base = (case url_Parse baseURL of Inl err \<Rightarrow> None | Inr u \<Rightarrow> Some u)
           in case extractLinks_each base sel [] of
                Panics p \<Rightarrow> Panics p
              | Returns links \<Rightarrow> Returns (Inr links)))"

definition maxPages :: nat where
  "maxPages = 100"

text \<open>The inner \<open>range\<close> loop of \<open>discoverFromLinks\<close> over the extracted links.\<close>

fun links_range :: "string \<Rightarrow> string list \<Rightarrow> Queue \<Rightarrow> Queue" where
  "links_range domain [] queue = queue"
| "links_range domain (link # links) queue =
     links_range domain links
       (if IsSameDomain link domain \<and> \<not> IsStaticAsset link
        then Queue_Add queue (NormalizeURL link) else queue)"

text \<open>
  The \<open>for\<close> loop of \<open>discoverFromLinks\<close>. It terminates because every iteration either
  adds to the visited set, of which the loop condition allows fewer than \<open>maxPages\<close>,
  or leaves the slice as it is and moves the read position forward.
\<close>

lemma Queue_Add_idx: "idx (Queue_Add q u) = idx q"
  by (simp add: Queue_Add_def)

lemma Queue_Add_grows:
  "Queue_Visited q \<le> Queue_Visited (Queue_Add q u)
   \<and> length (items q) \<le> length (items (Queue_Add q u))
   \<and> (Queue_Visited (Queue_Add q u) = Queue_Visited q \<longrightarrow> Queue_Add q u = q)"
  by (simp add: Queue_Add_def Queue_Visited_def fcard_finsert_disjoint)

lemma links_range_idx: "idx (links_range domain links q) = idx q"
  by (induction links arbitrary: q) (simp_all add: Queue_Add_idx)

lemma links_range_grows:
  "Queue_Visited q \<le> Queue_Visited (links_range domain links q)
   \<and> (Queue_Visited (links_range domain links q) = Queue_Visited q
        \<longrightarrow> links_range domain links q = q)"
proof (induction links arbitrary: q)
  case Nil
  show ?case by simp
next
  case (Cons link links)
  let ?q1 = "if IsSameDomain link domain \<and> \<not> IsStaticAsset link
             then Queue_Add q (NormalizeURL link) else q"
  have step: "Queue_Visited q \<le> Queue_Visited ?q1
      \<and> (Queue_Visited ?q1 = Queue_Visited q \<longrightarrow> ?q1 = q)"
    using Queue_Add_grows [of q "NormalizeURL link"] by simp
  have rest: "Queue_Visited ?q1 \<le> Queue_Visited (links_range domain links ?q1)
      \<and> (Queue_Visited (links_range domain links ?q1) = Queue_Visited ?q1
           \<longrightarrow> links_range domain links ?q1 = ?q1)"
    by (rule Cons.IH)
  have unfold: "links_range domain (link # links) q = links_range domain links ?q1"
    by simp
  from step rest show ?case
    unfolding unfold by (metis le_antisym le_trans)
qed

definition bfs_order :: "((extern \<times> 's Fetcher \<times> string \<times> Queue \<times> 's) \<times> (extern \<times> 's Fetcher \<times> string \<times> Queue \<times> 's)) set" where
  "bfs_order =
     measures [\<lambda>(env, fetcher, domain, queue, fs). maxPages - Queue_Visited queue,
               \<lambda>(env, fetcher, domain, queue, fs). length (items queue) - idx queue]"

lemma wf_bfs_order: "wf bfs_order"
  by (simp add: bfs_order_def)

lemma bfs_order_skip:
  assumes "Queue_HasNext queue \<and> Queue_Visited queue < maxPages"
    and "Queue_Next queue = Returns (currentURL, queue')"
  shows "((env, fetcher, domain, queue', fs'), env, fetcher, domain, queue, fs) \<in> bfs_order"
proof -
  from assms have q': "queue' = queue\<lparr>idx := idx queue + 1\<rparr>"
    and lt: "idx queue < length (items queue)"
    by (simp_all add: Queue_Next_def Queue_HasNext_def)
  from lt show ?thesis
    by (simp add: bfs_order_def q' Queue_Visited_def)
qed

lemma bfs_order_links:
  assumes "Queue_HasNext queue \<and> Queue_Visited queue < maxPages"
    and "Queue_Next queue = Returns (currentURL, queue')"
  shows "((env, fetcher, domain, links_range domain links queue', fs'), env, fetcher, domain, queue, fs)
           \<in> bfs_order"
proof -
  let ?q2 = "links_range domain links queue'"
  from assms have q': "queue' = queue\<lparr>idx := idx queue + 1\<rparr>"
    and lt: "idx queue < length (items queue)"
    by (simp_all add: Queue_Next_def Queue_HasNext_def)
  have v': "Queue_Visited queue' = Queue_Visited queue"
    by (simp add: q' Queue_Visited_def)
  from links_range_grows [of queue' domain links]
  have g: "Queue_Visited queue \<le> Queue_Visited ?q2"
    "Queue_Visited ?q2 = Queue_Visited queue \<longrightarrow> ?q2 = queue'"
    by (simp_all add: v')
  show ?thesis
  proof (cases "Queue_Visited ?q2 = Queue_Visited queue")
    case True
    with g have "?q2 = queue'" by simp
    then show ?thesis using lt by (simp add: bfs_order_def q' Queue_Visited_def)
  next
    case False
    with g assms(1) have "maxPages - Queue_Visited ?q2 < maxPages - Queue_Visited queue"
      by arith
    then show ?thesis by (simp add: bfs_order_def)
  qed
qed

function bfs_loop ::
  "extern \<Rightarrow> 's Fetcher \<Rightarrow> string \<Rightarrow> Queue \<times> 's \<Rightarrow> Queue outcome \<times> 's" where
  "bfs_loop env fetcher domain (queue, fs) =
     (if Queue_HasNext queue \<and> Queue_Visited queue < maxPages then
        (case Queue_Next queue of
           Panics p \<Rightarrow> (Panics p, fs)
         | Returns (currentURL, queue') \<Rightarrow>
             (case fetcher fs currentURL of
                ((result, Some err), fs') \<Rightarrow> bfs_loop env fetcher domain (queue', fs')
              | ((None, None), fs') \<Rightarrow> (Panics NilPointerDereference, fs')
              | ((Some result, None), fs') \<Rightarrow>
                  (case extractLinks env (HTML result) currentURL of
                     Panics p \<Rightarrow> (Panics p, fs')
                   | Returns (Inl err) \<Rightarrow> bfs_loop env fetcher domain (queue', fs')
                   | Returns (Inr links) \<Rightarrow>
                       bfs_loop env fetcher domain (links_range domain links queue', fs'))))
      else (Returns queue, fs))"
  by pat_completeness auto
termination
  by (relation bfs_order) (auto simp: wf_bfs_order intro: bfs_order_skip bfs_order_links)

declare bfs_loop.simps [simp del]

definition discoverFromLinks ::
  "extern \<Rightarrow> string \<Rightarrow> string \<Rightarrow> 's Fetcher \<Rightarrow> 's \<Rightarrow> (error + string list) outcome \<times> 's" where
  "discoverFromLinks env startURL domain fetcher fs =
     (case bfs_loop env fetcher domain (Queue_Add NewQueue (NormalizeURL startURL), fs) of
        (Panics p, fs') \<Rightarrow> (Panics p, fs')
      | (Returns queue, fs') \<Rightarrow> (Returns (Inr (Queue_All queue)), fs'))"

text \<open>The string \<open>fmt.Sprintf("%s://%s/sitemap.xml", parsed.Scheme, domain)\<close>.\<close>

definition sitemapURLStr :: "URL \<Rightarrow> string" where
  "sitemapURLStr parsed = Scheme parsed @ ''://'' @ Host parsed @ ''/sitemap.xml''"

definition DiscoverAll ::
  "extern \<Rightarrow> string \<Rightarrow> 's Fetcher \<Rightarrow> 's \<Rightarrow> (error + string list) outcome \<times> 's" where
  "DiscoverAll env baseURL fetcher fs =
     (case url_Parse baseURL of
        Inl err \<Rightarrow> (Returns (Inl (Wrap ''parsing base URL'' err)), fs)
      | Inr parsed \<Rightarrow>
          (let domain = Host parsed
           in case discoverFromSitemap env (sitemapURLStr parsed) domain of
                Inr urls \<Rightarrow>
                  if length urls > 0 then (Returns (Inr urls), fs)
                  else discoverFromLinks env baseURL domain fetcher fs
              | Inl err \<Rightarrow> discoverFromLinks env baseURL domain fetcher fs))"

section \<open>Vocabulary of the properties\<close>

text \<open>
  The order of first occurrences, written independently of the queue: the head of the
  list, then the first occurrences of the rest with the head removed.
\<close>

function first_occurrences :: "'a list \<Rightarrow> 'a list" where
  "first_occurrences [] = []"
| "first_occurrences (x # xs) = x # first_occurrences (removeAll x xs)"
  by pat_completeness auto
termination
  by (relation "measure length") (auto simp: less_Suc_eq_le length_removeAll_less_eq)

text \<open>The queue invariant: the slice has no duplicates and the map holds its elements.\<close>

definition queue_inv :: "Queue \<Rightarrow> bool" where
  "queue_inv q = (distinct (items q) \<and> fset (visited q) = set (items q))"

text \<open>
  One iteration of the loop, once the loop condition holds: the queue after it, or the
  panic that ends it, and the state of the fetcher.
\<close>

definition bfs_cond :: "Queue \<Rightarrow> bool" where
  "bfs_cond queue = (Queue_HasNext queue \<and> Queue_Visited queue < maxPages)"

definition bfs_body ::
  "extern \<Rightarrow> 's Fetcher \<Rightarrow> string \<Rightarrow> Queue \<Rightarrow> 's \<Rightarrow> Queue outcome \<times> 's" where
  "bfs_body env fetcher domain queue fs =
     (case fetcher fs (items queue ! idx queue) of
        ((result, Some err), fs') \<Rightarrow> (Returns (queue\<lparr>idx := Suc (idx queue)\<rparr>), fs')
      | ((None, None), fs') \<Rightarrow> (Panics NilPointerDereference, fs')
      | ((Some result, None), fs') \<Rightarrow>
          (case extractLinks env (HTML result) (items queue ! idx queue) of
             Panics p \<Rightarrow> (Panics p, fs')
           | Returns (Inl err) \<Rightarrow> (Returns (queue\<lparr>idx := Suc (idx queue)\<rparr>), fs')
           | Returns (Inr links) \<Rightarrow>
               (Returns (links_range domain links (queue\<lparr>idx := Suc (idx queue)\<rparr>)), fs')))"


text \<open>What \<open>NormalizeURL\<close> does to the parsed URL before it renders it.\<close>

definition normalized :: "URL \<Rightarrow> URL" where
  "normalized parsed =
     (if Path parsed \<noteq> ''/''
      then parsed\<lparr>Fragment := [], Path := TrimSuffix (Path parsed) ''/''\<rparr>
      else parsed\<lparr>Fragment := []\<rparr>)"



text \<open>A link is in scope when it passes the filter of both loops.\<close>

definition in_scope :: "string \<Rightarrow> string \<Rightarrow> bool" where
  "in_scope domain link = (IsSameDomain link domain \<and> \<not> IsStaticAsset link)"

text \<open>
  A fetcher that counts the calls of \<open>Fetch\<close> in its state and otherwise behaves as the
  fetcher it wraps: the link crawl has been entered exactly when the count is not zero.
\<close>

definition counted :: "'s Fetcher \<Rightarrow> (nat \<times> 's) Fetcher" where
  "counted fetcher = (\<lambda>(n, fs) url. case fetcher fs url of (r, fs') \<Rightarrow> (r, (Suc n, fs')))"

text \<open>
  A fetcher keeps the conventions of the interface when it never returns a nil result
  with a nil error, and returns a result only for a URL that parses (an HTTP client
  cannot send a request to any other).
\<close>

definition fetcher_ok :: "'s Fetcher \<Rightarrow> bool" where
  "fetcher_ok fetcher =
     (\<forall>fs url result err fs'. fetcher fs url = ((result, err), fs') \<longrightarrow>
        (err = None \<longrightarrow> result \<noteq> None \<and> (\<exists>u. url_Parse url = Inr u)))"

text \<open>
  Concrete surroundings for the examples: a site that refuses every connection, a site
  whose sitemap lists three pages of \<open>x.com\<close> and one of \<open>y.com\<close>, and a fetcher that
  fails on every page.
\<close>

definition refusing :: extern where
  "refusing =
     \<lparr>client_Do = (\<lambda>req. Inl (ExternalError ''connection refused'')),
      xml_Unmarshal = (\<lambda>body. Inl (ExternalError ''EOF'')),
      goquery_a_href = (\<lambda>html. Inr [])\<rparr>"

definition sitemap_site :: extern where
  "sitemap_site =
     \<lparr>client_Do = (\<lambda>req. Inr \<lparr>resp_StatusCode = 200, resp_Body = Inr ''<urlset>''\<rparr>),
      xml_Unmarshal = (\<lambda>body. Inr \<lparr>URLs =
        [\<lparr>Loc = ''https://x.com/''\<rparr>, \<lparr>Loc = ''https://x.com/docs/''\<rparr>,
         \<lparr>Loc = ''https://y.com/blog''\<rparr>, \<lparr>Loc = ''https://x.com/about#team''\<rparr>]\<rparr>),
      goquery_a_href = (\<lambda>html. Inr [])\<rparr>"

definition failing :: "unit Fetcher" where
  "failing fs url = ((None, Some (ExternalError ''timeout'')), fs)"

text \<open>
  A site whose pages are served but cannot be read as HTML, and a fetcher that serves
  the same document for every URL.
\<close>

definition unreadable :: extern where
  "unreadable =
     \<lparr>client_Do = (\<lambda>req. Inl (ExternalError ''connection refused'')),
      xml_Unmarshal = (\<lambda>body. Inl (ExternalError ''EOF'')),
      goquery_a_href = (\<lambda>html. Inl (ExternalError ''html: read error''))\<rparr>"

definition serving :: "unit Fetcher" where
  "serving fs url = ((Some \<lparr>URL = url, StatusCode = 200, HTML = ''<html></html>''\<rparr>, None), fs)"

text \<open>
  A page with three anchors: a relative link, a link into the page itself and a mail
  address.
\<close>

definition docs_page :: extern where
  "docs_page =
     \<lparr>client_Do = (\<lambda>req. Inl (ExternalError ''connection refused'')),
      xml_Unmarshal = (\<lambda>body. Inl (ExternalError ''EOF'')),
      goquery_a_href = (\<lambda>html.
        Inr [(''../intro'', True), (''#section'', True), (''mailto:a@b.com'', True)])\<rparr>"







section \<open>Properties of the queue\<close>

lemma queue_inv_NewQueue: "queue_inv NewQueue"
  by (simp add: queue_inv_def NewQueue_def)

lemma queue_inv_Add: "queue_inv q \<Longrightarrow> queue_inv (Queue_Add q url)"
  by (auto simp: queue_inv_def Queue_Add_def)

lemma queue_inv_adds: "queue_inv q \<Longrightarrow> queue_inv (foldl Queue_Add q us)"
  by (induction us arbitrary: q) (simp_all add: queue_inv_Add)

lemma queue_inv_Visited: "queue_inv q \<Longrightarrow> Queue_Visited q = length (items q)"
  by (simp add: queue_inv_def Queue_Visited_def fcard.rep_eq distinct_card)

lemma first_occurrences_snoc:
  "first_occurrences (xs @ [u]) =
     (if u \<in> set xs then first_occurrences xs else first_occurrences xs @ [u])"
proof (induction xs rule: first_occurrences.induct)
  case 1
  show ?case by simp
next
  case (2 x xs)
  then show ?case by (cases "u = x") auto
qed

lemma set_first_occurrences: "set (first_occurrences xs) = set xs"
  by (induction xs rule: first_occurrences.induct) auto

lemma items_Add:
  "queue_inv q \<Longrightarrow>
   items (Queue_Add q u) = (if u \<in> set (items q) then items q else items q @ [u])"
  by (auto simp: queue_inv_def Queue_Add_def)

lemma items_adds_fresh:
  "items (foldl Queue_Add NewQueue us) = first_occurrences us"
proof (induction us rule: rev_induct)
  case Nil
  show ?case by (simp add: NewQueue_def)
next
  case (snoc u us)
  have inv: "queue_inv (foldl Queue_Add NewQueue us)"
    by (rule queue_inv_adds [OF queue_inv_NewQueue])
  show ?case
    using snoc
    by (simp add: items_Add [OF inv] first_occurrences_snoc set_first_occurrences)
qed

lemma Add_again:
  "queue_inv q \<Longrightarrow> u \<in> set (items q) \<Longrightarrow> Queue_Add q u = q"
  by (auto simp: queue_inv_def Queue_Add_def)

text \<open>
  C3. After any finite sequence \<open>us\<close> of \<open>Add\<close> calls on a fresh queue, \<open>All()\<close> is the
  list of the distinct URLs of \<open>us\<close> in the order of their first \<open>Add\<close>, each exactly
  once; adding a URL that was added before leaves the queue as it is; and \<open>Visited()\<close>
  equals the length of \<open>All()\<close>.
\<close>

theorem Queue_fifo_dedup:
  "Queue_All (foldl Queue_Add NewQueue us) = first_occurrences us
   \<and> distinct (Queue_All (foldl Queue_Add NewQueue us))
   \<and> set (Queue_All (foldl Queue_Add NewQueue us)) = set us
   \<and> Queue_Add (foldl Queue_Add NewQueue (us @ u # vs)) u = foldl Queue_Add NewQueue (us @ u # vs)
   \<and> Queue_Visited (foldl Queue_Add NewQueue us) = length (Queue_All (foldl Queue_Add NewQueue us))"
proof -
  have inv: "queue_inv (foldl Queue_Add NewQueue ws)" for ws
    by (rule queue_inv_adds [OF queue_inv_NewQueue])
  have a: "Queue_All (foldl Queue_Add NewQueue us) = first_occurrences us"
    by (simp add: Queue_All_def items_adds_fresh)
  have b: "distinct (Queue_All (foldl Queue_Add NewQueue us))"
    using inv [of us] by (simp add: queue_inv_def Queue_All_def)
  have c: "set (Queue_All (foldl Queue_Add NewQueue us)) = set us"
    by (simp add: a set_first_occurrences)
  have "u \<in> set (items (foldl Queue_Add NewQueue (us @ u # vs)))"
    by (simp only: items_adds_fresh set_first_occurrences) simp
  then have d: "Queue_Add (foldl Queue_Add NewQueue (us @ u # vs)) u
      = foldl Queue_Add NewQueue (us @ u # vs)"
    by (rule Add_again [OF inv])
  have e: "Queue_Visited (foldl Queue_Add NewQueue us)
      = length (Queue_All (foldl Queue_Add NewQueue us))"
    using queue_inv_Visited [OF inv [of us]] by (simp add: Queue_All_def)
  from a b c d e show ?thesis by blast
qed

section \<open>The loop of the link crawl\<close>

lemma bfs_loop_unfold:
  "bfs_loop env fetcher domain (queue, fs) =
     (if bfs_cond queue then
        (case bfs_body env fetcher domain queue fs of
           (Panics p, fs') \<Rightarrow> (Panics p, fs')
         | (Returns queue', fs') \<Rightarrow> bfs_loop env fetcher domain (queue', fs'))
      else (Returns queue, fs))"
proof (cases "bfs_cond queue")
  case False
  then have "\<not> (Queue_HasNext queue \<and> Queue_Visited queue < maxPages)"
    by (simp add: bfs_cond_def)
  then have "bfs_loop env fetcher domain (queue, fs) = (Returns queue, fs)"
    by (subst bfs_loop.simps) (simp only: if_False)
  with False show ?thesis by simp
next
  case True
  then have c: "Queue_HasNext queue \<and> Queue_Visited queue < maxPages"
    by (simp add: bfs_cond_def)
  then have nx: "Queue_Next queue
      = Returns (items queue ! idx queue, queue\<lparr>idx := Suc (idx queue)\<rparr>)"
    by (simp add: Queue_Next_def Queue_HasNext_def)
  have "bfs_loop env fetcher domain (queue, fs) =
      (case bfs_body env fetcher domain queue fs of
         (Panics p, fs') \<Rightarrow> (Panics p, fs')
       | (Returns queue', fs') \<Rightarrow> bfs_loop env fetcher domain (queue', fs'))"
    by (subst bfs_loop.simps)
       (simp add: c nx bfs_body_def split: prod.splits option.splits outcome.splits sum.splits)
  with True show ?thesis by simp
qed

lemma bfs_body_order:
  assumes "bfs_cond queue"
    and "bfs_body env fetcher domain queue fs = (Returns queue', fs')"
  shows "((env, fetcher, domain, queue', fs'), env, fetcher, domain, queue, fs) \<in> bfs_order"
proof -
  from assms(1) have c: "Queue_HasNext queue \<and> Queue_Visited queue < maxPages"
    by (simp add: bfs_cond_def)
  then have nx: "Queue_Next queue
      = Returns (items queue ! idx queue, queue\<lparr>idx := Suc (idx queue)\<rparr>)"
    by (simp add: Queue_Next_def Queue_HasNext_def)
  from assms(2) consider "queue' = queue\<lparr>idx := Suc (idx queue)\<rparr>"
    | links where "queue' = links_range domain links (queue\<lparr>idx := Suc (idx queue)\<rparr>)"
    by (auto simp: bfs_body_def split: prod.splits option.splits outcome.splits sum.splits)
  then show ?thesis
  proof cases
    case 1
    then show ?thesis using bfs_order_skip [OF c nx] by simp
  next
    case 2
    then show ?thesis using bfs_order_links [OF c nx] by simp
  qed
qed

text \<open>
  An invariant of the loop holds of the queue it returns, where the loop condition is
  false; and a panic of the loop is a panic of one iteration that started from a state
  satisfying the invariant.
\<close>

lemma bfs_loop_invariant:
  assumes step: "\<forall>q s q' s'. I q s \<and> bfs_cond q
      \<and> bfs_body env fetcher domain q s = (Returns q', s') \<longrightarrow> I q' s'"
    and init: "I queue fs"
  shows "case bfs_loop env fetcher domain (queue, fs) of
           (Returns queue', fs') \<Rightarrow> I queue' fs' \<and> \<not> bfs_cond queue'
         | (Panics p, fs') \<Rightarrow>
             (\<exists>q s. I q s \<and> bfs_cond q \<and> bfs_body env fetcher domain q s = (Panics p, fs'))"
proof -
  define st where "st = (env, fetcher, domain, queue, fs)"
  have "\<forall>q s. st = (env, fetcher, domain, q, s) \<longrightarrow> I q s \<longrightarrow>
      (case bfs_loop env fetcher domain (q, s) of
         (Returns queue', fs') \<Rightarrow> I queue' fs' \<and> \<not> bfs_cond queue'
       | (Panics p, fs') \<Rightarrow>
           (\<exists>q s. I q s \<and> bfs_cond q \<and> bfs_body env fetcher domain q s = (Panics p, fs')))"
  proof (induction st rule: wf_induct_rule [OF wf_bfs_order])
    case (1 st)
    show ?case
    proof (intro allI impI)
      fix q s
      assume st: "st = (env, fetcher, domain, q, s)" and I: "I q s"
      show "case bfs_loop env fetcher domain (q, s) of
              (Returns queue', fs') \<Rightarrow> I queue' fs' \<and> \<not> bfs_cond queue'
            | (Panics p, fs') \<Rightarrow>
                (\<exists>q s. I q s \<and> bfs_cond q \<and> bfs_body env fetcher domain q s = (Panics p, fs'))"
      proof (cases "bfs_cond q")
        case False
        with I show ?thesis by (subst bfs_loop_unfold) simp
      next
        case True
        obtain r s' where b: "bfs_body env fetcher domain q s = (r, s')"
          by (cases "bfs_body env fetcher domain q s")
        show ?thesis
        proof (cases r)
          case (Panics p)
          with True b I show ?thesis by (subst bfs_loop_unfold) auto
        next
          case (Returns q')
          with b have b': "bfs_body env fetcher domain q s = (Returns q', s')" by simp
          from bfs_body_order [OF True b'] st
          have "((env, fetcher, domain, q', s'), st) \<in> bfs_order" by simp
          from step I True b' have "I q' s'" by blast
          with 1 [OF \<open>((env, fetcher, domain, q', s'), st) \<in> bfs_order\<close>]
          have "case bfs_loop env fetcher domain (q', s') of
              (Returns queue', fs') \<Rightarrow> I queue' fs' \<and> \<not> bfs_cond queue'
            | (Panics p, fs') \<Rightarrow>
                (\<exists>q s. I q s \<and> bfs_cond q \<and> bfs_body env fetcher domain q s = (Panics p, fs'))"
            by simp
          with True b' show ?thesis by (subst bfs_loop_unfold) simp
        qed
      qed
    qed
  qed
  with init show ?thesis by (simp add: st_def)
qed

section \<open>The read position and the loop\<close>

lemma resolveURL_no_range_panic: "resolveURL href base \<noteq> Panics IndexOutOfRange"
  by (auto simp: resolveURL_def ResolveReference_def
      split: sum.splits option.splits outcome.splits)

lemma extractLinks_each_no_range_panic:
  "extractLinks_each base sel links \<noteq> Panics IndexOutOfRange"
proof (induction base sel links rule: extractLinks_each.induct)
  case (1 base links)
  show ?case by simp
next
  case (2 base href exists sel links)
  show ?case
  proof (cases "\<not> exists \<or> href = []")
    case True
    with 2 show ?thesis by simp
  next
    case False
    show ?thesis
    proof (cases "resolveURL href base")
      case (Returns resolved)
      with False 2(2) [OF False Returns] show ?thesis by simp
    next
      case (Panics p)
      with resolveURL_no_range_panic [of href base] False show ?thesis by auto
    qed
  qed
qed

lemma extractLinks_no_range_panic:
  "extractLinks env html baseURL \<noteq> Panics IndexOutOfRange"
  using extractLinks_each_no_range_panic
  by (auto simp: extractLinks_def Let_def split: sum.splits outcome.splits)

lemma bfs_body_no_range_panic:
  "bfs_body env fetcher domain q s \<noteq> (Panics IndexOutOfRange, s')"
  using extractLinks_no_range_panic [of env _ "items q ! idx q"]
  by (auto simp: bfs_body_def split: prod.splits option.splits outcome.splits sum.splits)

lemma bfs_loop_no_range_panic:
  "fst (bfs_loop env fetcher domain (queue, fs)) \<noteq> Panics IndexOutOfRange"
proof
  assume a: "fst (bfs_loop env fetcher domain (queue, fs)) = Panics IndexOutOfRange"
  then obtain fs' where "bfs_loop env fetcher domain (queue, fs) = (Panics IndexOutOfRange, fs')"
    by (cases "bfs_loop env fetcher domain (queue, fs)") simp
  with bfs_loop_invariant [where I = "\<lambda>q s. True" and env = env and fetcher = fetcher
      and domain = domain and queue = queue and fs = fs]
  obtain q s where "bfs_body env fetcher domain q s = (Panics IndexOutOfRange, fs')"
    by auto
  with bfs_body_no_range_panic [of env fetcher domain q s fs'] show False by simp
qed

text \<open>
  C9. When \<open>HasNext()\<close> is true the read position is an index into the slice, and
  \<open>Next()\<close> returns the URL at that position and advances the position by exactly one.
  The one call of \<open>Next()\<close> in the crawl stands under \<open>HasNext()\<close> in the loop condition:
  whatever the fetcher and the pages, the loop never ends in an index out of range.
\<close>

theorem Queue_Next_guarded:
  "(Queue_HasNext q \<longrightarrow>
      idx q < length (items q)
      \<and> Queue_Next q = Returns (items q ! idx q, q\<lparr>idx := idx q + 1\<rparr>))
   \<and> fst (bfs_loop env fetcher domain (queue, fs)) \<noteq> Panics IndexOutOfRange"
  using bfs_loop_no_range_panic [of env fetcher domain queue fs]
  by (simp add: Queue_HasNext_def Queue_Next_def)

theorem Queue_Next_guarded_witness:
  "Queue_HasNext (Queue_Add NewQueue ''https://x.com/'')
   \<and> Queue_Next (Queue_Add NewQueue ''https://x.com/'')
       = Returns (''https://x.com/'', (Queue_Add NewQueue ''https://x.com/'')\<lparr>idx := 1\<rparr>)
   \<and> fst (bfs_loop refusing failing ''x.com'' (Queue_Add NewQueue ''https://x.com/'', ()))
       \<noteq> Panics IndexOutOfRange"
proof -
  have h: "Queue_HasNext (Queue_Add NewQueue ''https://x.com/'')"
    by (simp add: Queue_HasNext_def Queue_Add_def NewQueue_def)
  from h Queue_Next_guarded
    [of "Queue_Add NewQueue ''https://x.com/''" refusing failing "''x.com''"
        "Queue_Add NewQueue ''https://x.com/''" "()"]
  show ?thesis by (simp add: Queue_Add_def NewQueue_def)
qed

section \<open>The sitemap reader\<close>

lemma sitemap_range_eq:
  "sitemap_range domain us urls
     = urls @ map NormalizeURL (filter (in_scope domain) (map Loc us))"
  by (induction us arbitrary: urls) (simp_all add: in_scope_def)

text \<open>
  C7. When the sitemap is fetched (status 200, body read) and parsed, the reader returns
  the \<open>loc\<close> values that pass \<open>IsSameDomain\<close> for the crawl domain and are not static
  assets, each normalized by \<open>NormalizeURL\<close>, in the order of the document.
\<close>

theorem discoverFromSitemap_output:
  assumes "NewRequestWithContext sitemapURL = Inr req"
    and "client_Do env req = Inr resp"
    and "resp_StatusCode resp = 200"
    and "resp_Body resp = Inr body"
    and "xml_Unmarshal env body = Inr sitemap"
  shows "discoverFromSitemap env sitemapURL domain
     = Inr (map NormalizeURL
         (filter (\<lambda>loc. IsSameDomain loc domain \<and> \<not> IsStaticAsset loc) (map Loc (URLs sitemap))))"
proof -
  have "in_scope domain = (\<lambda>loc. IsSameDomain loc domain \<and> \<not> IsStaticAsset loc)"
    by (rule ext) (simp add: in_scope_def)
  with assms show ?thesis
    by (simp add: discoverFromSitemap_def sitemap_range_eq)
qed

theorem discoverFromSitemap_output_witness:
  "discoverFromSitemap sitemap_site ''https://x.com/sitemap.xml'' ''x.com''
     = Inr [''https://x.com/'', ''https://x.com/docs'', ''https://x.com/about'']"
proof -
  let ?req = "\<lparr>Scheme = ''https'', Opaque = [], User = None, Host = ''x.com'',
      Path = ''/sitemap.xml'', RawPath = [], OmitHost = False, ForceQuery = False,
      RawQuery = [], Fragment = [], RawFragment = []\<rparr>"
  let ?resp = "\<lparr>resp_StatusCode = 200, resp_Body = Inr ''<urlset>''\<rparr>"
  let ?sitemap = "\<lparr>URLs =
        [\<lparr>Loc = ''https://x.com/''\<rparr>, \<lparr>Loc = ''https://x.com/docs/''\<rparr>,
         \<lparr>Loc = ''https://y.com/blog''\<rparr>, \<lparr>Loc = ''https://x.com/about#team''\<rparr>]\<rparr>"
  have 1: "NewRequestWithContext ''https://x.com/sitemap.xml'' = Inr ?req"
    by code_simp
  have 2: "client_Do sitemap_site ?req = Inr ?resp"
    by (simp add: sitemap_site_def)
  have 3: "resp_StatusCode ?resp = 200" and 4: "resp_Body ?resp = Inr ''<urlset>''"
    by simp_all
  have 5: "xml_Unmarshal sitemap_site ''<urlset>'' = Inr ?sitemap"
    by (simp add: sitemap_site_def)
  have 6: "map NormalizeURL
      (filter (\<lambda>loc. IsSameDomain loc ''x.com'' \<and> \<not> IsStaticAsset loc) (map Loc (URLs ?sitemap)))
      = [''https://x.com/'', ''https://x.com/docs'', ''https://x.com/about'']"
    by code_simp
  from discoverFromSitemap_output [OF 1 2 3 4 5, of "''x.com''"] 6
  show ?thesis by simp
qed

section \<open>The orchestrator\<close>

lemma counted_body_count:
  "fst (snd (bfs_body env (counted fetcher) domain q (n, s))) = Suc n"
  by (simp add: bfs_body_def counted_def
      split: prod.splits option.splits outcome.splits sum.splits)

lemma counted_loop_count:
  "n \<le> fst (snd (bfs_loop env (counted fetcher) domain (q, (n, s))))"
proof -
  obtain r m s' where res: "bfs_loop env (counted fetcher) domain (q, (n, s)) = (r, (m, s'))"
    by (metis surj_pair)
  have step: "\<forall>q st q' st'. n \<le> fst st \<and> bfs_cond q
      \<and> bfs_body env (counted fetcher) domain q st = (Returns q', st') \<longrightarrow> n \<le> fst st'"
  proof (intro allI impI, elim conjE)
    fix q :: Queue and st st' :: "nat \<times> 'a" and q'
    assume a: "n \<le> fst st" and b: "bfs_body env (counted fetcher) domain q st = (Returns q', st')"
    from counted_body_count [of env fetcher domain q "fst st" "snd st"] b
    have "fst st' = Suc (fst st)" by simp
    with a show "n \<le> fst st'" by simp
  qed
  have init: "n \<le> fst (n, s)" by simp
  note inv = bfs_loop_invariant [where I = "\<lambda>q st. n \<le> fst st", OF step init, of q]
  have "n \<le> m"
  proof (cases r)
    case (Returns q')
    with inv res show ?thesis by simp
  next
    case (Panics p)
    with inv res
    obtain q0 st0 where a: "n \<le> fst st0"
      and b: "bfs_body env (counted fetcher) domain q0 st0 = (Panics p, (m, s'))"
      by auto
    from counted_body_count [of env fetcher domain q0 "fst st0" "snd st0"] b
    have "m = Suc (fst st0)" by simp
    with a show ?thesis by simp
  qed
  with res show ?thesis by simp
qed

lemma counted_loop_entered:
  assumes "bfs_cond q"
  shows "n < fst (snd (bfs_loop env (counted fetcher) domain (q, (n, s))))"
proof -
  obtain r st where b: "bfs_body env (counted fetcher) domain q (n, s) = (r, st)"
    by (cases "bfs_body env (counted fetcher) domain q (n, s)")
  from counted_body_count [of env fetcher domain q n s] b
  have st: "fst st = Suc n" by simp
  show ?thesis
  proof (cases r)
    case (Panics p)
    with assms b st show ?thesis by (subst bfs_loop_unfold) simp
  next
    case (Returns q')
    from counted_loop_count [of "fst st" env fetcher domain q' "snd st"] st
    have "n < fst (snd (bfs_loop env (counted fetcher) domain (q', st)))"
      by (cases st) simp
    with assms b Returns show ?thesis by (subst bfs_loop_unfold) simp
  qed
qed

lemma bfs_cond_seed: "bfs_cond (Queue_Add NewQueue url)"
  by (simp add: bfs_cond_def Queue_HasNext_def Queue_Visited_def Queue_Add_def NewQueue_def
      maxPages_def fcard_finsert_disjoint fcard_fempty)

lemma discoverFromLinks_entered:
  "0 < fst (snd (discoverFromLinks env startURL domain (counted fetcher) (0, fs)))"
proof -
  from counted_loop_entered [OF bfs_cond_seed, of 0 env fetcher domain "NormalizeURL startURL" fs]
  show ?thesis
    by (auto simp: discoverFromLinks_def split: prod.splits outcome.splits)
qed

text \<open>
  C1. Let the starting URL parse. If the sitemap reader succeeds with at least one URL,
  \<open>DiscoverAll\<close> returns that list and the fetcher is never called. In every other
  case (the request fails, the status is not 200, the body is not read, the XML is not
  parsed, or no candidate passes the filter) the result is that of the link crawl from
  the starting URL. With a fetcher that counts its calls, the count stays zero if and
  only if the sitemap reader succeeded with at least one URL.
\<close>

theorem DiscoverAll_sitemap_or_links:
  assumes "url_Parse baseURL = Inr parsed"
  shows
    "(\<forall>urls. discoverFromSitemap env (sitemapURLStr parsed) (Host parsed) = Inr urls \<and> urls \<noteq> []
        \<longrightarrow> DiscoverAll env baseURL fetcher fs = (Returns (Inr urls), fs))
     \<and> ((\<nexists>urls. discoverFromSitemap env (sitemapURLStr parsed) (Host parsed) = Inr urls
              \<and> urls \<noteq> [])
        \<longrightarrow> DiscoverAll env baseURL fetcher fs
              = discoverFromLinks env baseURL (Host parsed) fetcher fs)
     \<and> ((fst (snd (DiscoverAll env baseURL (counted fetcher) (0, fs))) = 0)
          = (\<exists>urls. discoverFromSitemap env (sitemapURLStr parsed) (Host parsed) = Inr urls
               \<and> urls \<noteq> []))"
proof (cases "discoverFromSitemap env (sitemapURLStr parsed) (Host parsed)")
  case (Inl err)
  with assms discoverFromLinks_entered [of env baseURL "Host parsed" fetcher fs]
  show ?thesis by (simp add: DiscoverAll_def)
next
  case (Inr found)
  show ?thesis
  proof (cases "found = []")
    case True
    with Inr assms discoverFromLinks_entered [of env baseURL "Host parsed" fetcher fs]
    show ?thesis by (simp add: DiscoverAll_def)
  next
    case False
    with Inr assms show ?thesis by (simp add: DiscoverAll_def)
  qed
qed

theorem DiscoverAll_sitemap_or_links_witness:
  "DiscoverAll sitemap_site ''https://x.com/'' failing ()
     = (Returns (Inr [''https://x.com/'', ''https://x.com/docs'', ''https://x.com/about'']), ())
   \<and> fst (snd (DiscoverAll sitemap_site ''https://x.com/'' (counted failing) (0, ()))) = 0
   \<and> DiscoverAll refusing ''https://x.com/'' failing ()
     = discoverFromLinks refusing ''https://x.com/'' ''x.com'' failing ()
   \<and> fst (snd (DiscoverAll refusing ''https://x.com/'' (counted failing) (0, ()))) \<noteq> 0"
proof -
  let ?u = "\<lparr>Scheme = ''https'', Opaque = [], User = None, Host = ''x.com'',
      Path = ''/'', RawPath = [], OmitHost = False, ForceQuery = False,
      RawQuery = [], Fragment = [], RawFragment = []\<rparr>"
  have p: "url_Parse ''https://x.com/'' = Inr ?u"
    by code_simp
  have s1: "discoverFromSitemap sitemap_site (sitemapURLStr ?u) (Host ?u)
      = Inr [''https://x.com/'', ''https://x.com/docs'', ''https://x.com/about'']"
    by code_simp
  have s2: "discoverFromSitemap refusing (sitemapURLStr ?u) (Host ?u)
      = Inl (ExternalError ''connection refused'')"
    by code_simp
  from DiscoverAll_sitemap_or_links [OF p, of sitemap_site failing "()"] s1
  have a: "DiscoverAll sitemap_site ''https://x.com/'' failing ()
      = (Returns (Inr [''https://x.com/'', ''https://x.com/docs'', ''https://x.com/about'']), ())
    \<and> fst (snd (DiscoverAll sitemap_site ''https://x.com/'' (counted failing) (0, ()))) = 0"
    by simp
  from DiscoverAll_sitemap_or_links [OF p, of refusing failing "()"] s2
  have b: "DiscoverAll refusing ''https://x.com/'' failing ()
      = discoverFromLinks refusing ''https://x.com/'' ''x.com'' failing ()
    \<and> fst (snd (DiscoverAll refusing ''https://x.com/'' (counted failing) (0, ()))) \<noteq> 0"
    by simp
  from a b show ?thesis by simp
qed

text \<open>
  C5. \<open>DiscoverAll\<close> returns an error if and only if the starting URL does not parse.
  In the link crawl a page whose fetch fails, and a page whose links cannot be
  extracted, is skipped: the loop goes on with the queue as it was and the read
  position moved past the page.
\<close>

theorem DiscoverAll_error_iff:
  "((\<exists>e. fst (DiscoverAll env baseURL fetcher fs) = Returns (Inl e))
      = (\<exists>e. url_Parse baseURL = Inl e))
   \<and> (bfs_cond q \<and> fetcher fs (items q ! idx q) = ((r, Some err), fs')
        \<longrightarrow> bfs_loop env fetcher domain (q, fs)
              = bfs_loop env fetcher domain (q\<lparr>idx := Suc (idx q)\<rparr>, fs'))
   \<and> (bfs_cond q \<and> fetcher fs (items q ! idx q) = ((Some result, None), fs')
          \<and> extractLinks env (HTML result) (items q ! idx q) = Returns (Inl err)
        \<longrightarrow> bfs_loop env fetcher domain (q, fs)
              = bfs_loop env fetcher domain (q\<lparr>idx := Suc (idx q)\<rparr>, fs'))"
proof -
  have links: "fst (discoverFromLinks env baseURL d fetcher fs) \<noteq> Returns (Inl e)" for d e
    by (simp add: discoverFromLinks_def split: prod.splits outcome.splits)
  have a: "(\<exists>e. fst (DiscoverAll env baseURL fetcher fs) = Returns (Inl e))
      = (\<exists>e. url_Parse baseURL = Inl e)"
  proof (cases "url_Parse baseURL")
    case (Inl e)
    then show ?thesis by (simp add: DiscoverAll_def)
  next
    case (Inr parsed)
    then show ?thesis
      using links by (simp add: DiscoverAll_def Let_def split: sum.splits)
  qed
  have b: "bfs_cond q \<and> fetcher fs (items q ! idx q) = ((r, Some err), fs')
        \<longrightarrow> bfs_loop env fetcher domain (q, fs)
              = bfs_loop env fetcher domain (q\<lparr>idx := Suc (idx q)\<rparr>, fs')"
    by (subst bfs_loop_unfold) (simp add: bfs_body_def split: option.splits)
  have c: "bfs_cond q \<and> fetcher fs (items q ! idx q) = ((Some result, None), fs')
          \<and> extractLinks env (HTML result) (items q ! idx q) = Returns (Inl err)
        \<longrightarrow> bfs_loop env fetcher domain (q, fs)
              = bfs_loop env fetcher domain (q\<lparr>idx := Suc (idx q)\<rparr>, fs')"
    by (subst bfs_loop_unfold) (simp add: bfs_body_def split: option.splits)
  from a b c show ?thesis by blast
qed

theorem DiscoverAll_error_iff_witness:
  "bfs_cond (Queue_Add NewQueue ''https://x.com/'')
   \<and> bfs_loop refusing failing ''x.com'' (Queue_Add NewQueue ''https://x.com/'', ())
       = bfs_loop refusing failing ''x.com''
           ((Queue_Add NewQueue ''https://x.com/'')\<lparr>idx := Suc 0\<rparr>, ())
   \<and> extractLinks unreadable ''<html></html>'' ''https://x.com/''
       = Returns (Inl (ExternalError ''html: read error''))
   \<and> bfs_loop unreadable serving ''x.com'' (Queue_Add NewQueue ''https://x.com/'', ())
       = bfs_loop unreadable serving ''x.com''
           ((Queue_Add NewQueue ''https://x.com/'')\<lparr>idx := Suc 0\<rparr>, ())
   \<and> (\<exists>e. fst (DiscoverAll refusing '':'' failing ()) = Returns (Inl e))"
proof -
  let ?q = "Queue_Add NewQueue ''https://x.com/''"
  have c: "bfs_cond ?q" by (rule bfs_cond_seed)
  have i: "items ?q ! idx ?q = ''https://x.com/''"
    by (simp add: Queue_Add_def NewQueue_def)
  have f: "failing () (items ?q ! idx ?q) = ((None, Some (ExternalError ''timeout'')), ())"
    by (simp add: failing_def)
  have s: "serving () (items ?q ! idx ?q)
      = ((Some \<lparr>URL = ''https://x.com/'', StatusCode = 200, HTML = ''<html></html>''\<rparr>, None), ())"
    by (simp add: serving_def i)
  have x: "extractLinks unreadable ''<html></html>'' ''https://x.com/''
      = Returns (Inl (ExternalError ''html: read error''))"
    by (simp add: extractLinks_def unreadable_def)
  have p: "url_Parse '':'' = Inl MissingProtocolScheme"
    by code_simp
  from c f DiscoverAll_error_iff
    [of refusing "'':''" failing "()" ?q None "ExternalError ''timeout''" "()" "''x.com''"]
  have a: "bfs_loop refusing failing ''x.com'' (?q, ())
      = bfs_loop refusing failing ''x.com'' (?q\<lparr>idx := Suc 0\<rparr>, ())"
    and e: "\<exists>e. fst (DiscoverAll refusing '':'' failing ()) = Returns (Inl e)"
    using p i by (simp_all add: Queue_Add_def NewQueue_def)
  from c s x DiscoverAll_error_iff
    [of unreadable "'':''" serving "()" ?q None "ExternalError ''html: read error''" "()" "''x.com''"
        "\<lparr>URL = ''https://x.com/'', StatusCode = 200, HTML = ''<html></html>''\<rparr>"]
  have b: "bfs_loop unreadable serving ''x.com'' (?q, ())
      = bfs_loop unreadable serving ''x.com'' (?q\<lparr>idx := Suc 0\<rparr>, ())"
    using i by (simp add: Queue_Add_def NewQueue_def)
  from c a x b e show ?thesis by blast
qed

section \<open>What the link crawl returns\<close>

lemma links_range_items:
  "\<exists>more. items (links_range domain links q) = items q @ more
     \<and> (\<forall>u\<in>set more. \<exists>link. u = NormalizeURL link \<and> in_scope domain link)"
proof (induction links arbitrary: q)
  case Nil
  show ?case by simp
next
  case (Cons link links)
  let ?q1 = "if IsSameDomain link domain \<and> \<not> IsStaticAsset link
             then Queue_Add q (NormalizeURL link) else q"
  have one: "\<exists>more. items ?q1 = items q @ more
     \<and> (\<forall>u\<in>set more. \<exists>l. u = NormalizeURL l \<and> in_scope domain l)"
  proof (cases "IsSameDomain link domain \<and> \<not> IsStaticAsset link")
    case False
    then have "?q1 = q" by auto
    then show ?thesis by simp
  next
    case True
    then have sc: "in_scope domain link" by (simp add: in_scope_def)
    show ?thesis
    proof (cases "NormalizeURL link |\<in>| visited q")
      case True
      then show ?thesis by (simp add: Queue_Add_def)
    next
      case False
      with \<open>IsSameDomain link domain \<and> \<not> IsStaticAsset link\<close>
      have "items ?q1 = items q @ [NormalizeURL link]" by (simp add: Queue_Add_def)
      with sc show ?thesis by auto
    qed
  qed
  then obtain m1 where m1: "items ?q1 = items q @ m1"
    "\<forall>u\<in>set m1. \<exists>l. u = NormalizeURL l \<and> in_scope domain l" by blast
  from Cons.IH [of ?q1] obtain m2 where m2: "items (links_range domain links ?q1) = items ?q1 @ m2"
    "\<forall>u\<in>set m2. \<exists>l. u = NormalizeURL l \<and> in_scope domain l" by blast
  have "items (links_range domain (link # links) q) = items q @ (m1 @ m2)"
    using m1(1) m2(1) by simp
  moreover have "\<forall>u\<in>set (m1 @ m2). \<exists>l. u = NormalizeURL l \<and> in_scope domain l"
    using m1(2) m2(2) by auto
  ultimately show ?case by blast
qed

text \<open>The invariant: the seed is first, and every later URL came through the filter.\<close>

lemma seed_first_step:
  "\<forall>q s q' s'.
     (\<exists>rest. items q = seed # rest
        \<and> (\<forall>u\<in>set rest. \<exists>link. u = NormalizeURL link \<and> in_scope domain link))
     \<and> bfs_cond q \<and> bfs_body env fetcher domain q s = (Returns q', s')
     \<longrightarrow> (\<exists>rest. items q' = seed # rest
        \<and> (\<forall>u\<in>set rest. \<exists>link. u = NormalizeURL link \<and> in_scope domain link))"
proof (intro allI impI, elim conjE exE)
  fix q :: Queue and s s' :: 'a and q' rest
  assume it: "items q = seed # rest"
    and sc: "\<forall>u\<in>set rest. \<exists>link. u = NormalizeURL link \<and> in_scope domain link"
    and b: "bfs_body env fetcher domain q s = (Returns q', s')"
  from b consider "q' = q\<lparr>idx := Suc (idx q)\<rparr>"
    | links where "q' = links_range domain links (q\<lparr>idx := Suc (idx q)\<rparr>)"
    by (auto simp: bfs_body_def split: prod.splits option.splits outcome.splits sum.splits)
  then show "\<exists>rest. items q' = seed # rest
        \<and> (\<forall>u\<in>set rest. \<exists>link. u = NormalizeURL link \<and> in_scope domain link)"
  proof cases
    case 1
    with it sc show ?thesis by simp
  next
    case 2
    from links_range_items [of domain links "q\<lparr>idx := Suc (idx q)\<rparr>"]
    obtain more where "items (links_range domain links (q\<lparr>idx := Suc (idx q)\<rparr>))
        = items (q\<lparr>idx := Suc (idx q)\<rparr>) @ more"
      and "\<forall>u\<in>set more. \<exists>link. u = NormalizeURL link \<and> in_scope domain link"
      by blast
    with 2 it sc have "items q' = seed # (rest @ more)"
      and "\<forall>u\<in>set (rest @ more). \<exists>link. u = NormalizeURL link \<and> in_scope domain link"
      by auto
    then show ?thesis by blast
  qed
qed

lemma discoverFromLinks_seed_first:
  assumes "fst (discoverFromLinks env startURL domain fetcher fs) = Returns (Inr urls)"
  shows "\<exists>rest. urls = NormalizeURL startURL # rest
     \<and> (\<forall>u\<in>set rest. \<exists>link. u = NormalizeURL link \<and> in_scope domain link)"
proof -
  let ?seed = "NormalizeURL startURL"
  let ?I = "\<lambda>q s. \<exists>rest. items q = ?seed # rest
        \<and> (\<forall>u\<in>set rest. \<exists>link. u = NormalizeURL link \<and> in_scope domain link)"
  have init: "?I (Queue_Add NewQueue ?seed) fs"
    by (simp add: Queue_Add_def NewQueue_def)
  note inv = bfs_loop_invariant [where I = ?I and fs = fs, OF seed_first_step init]
  from assms obtain q fs' where
    r: "bfs_loop env fetcher domain (Queue_Add NewQueue ?seed, fs) = (Returns q, fs')"
    and u: "urls = Queue_All q"
    by (auto simp: discoverFromLinks_def split: prod.splits outcome.splits)
  from inv [of env fetcher] r have "?I q fs'" by simp
  with u show ?thesis by (simp add: Queue_All_def)
qed

subsection \<open>When the link crawl returns\<close>

lemma resolveURL_returns: "\<exists>r. resolveURL href (Some base) = Returns r"
  by (simp add: resolveURL_def ResolveReference_def split: sum.splits)

lemma extractLinks_each_returns: "\<exists>r. extractLinks_each (Some base) sel links = Returns r"
proof (induction sel arbitrary: links)
  case Nil
  show ?case by simp
next
  case (Cons a sel)
  obtain href exists where a: "a = (href, exists)" by (cases a)
  from resolveURL_returns [of href base] obtain r where r: "resolveURL href (Some base) = Returns r"
    by blast
  show ?case
  proof (cases "\<not> exists \<or> href = []")
    case True
    with a Cons.IH [of links] show ?thesis by simp
  next
    case False
    with a r Cons.IH [of "if r \<noteq> [] then links @ [r] else links"] show ?thesis by simp
  qed
qed

lemma extractLinks_returns:
  assumes "url_Parse baseURL = Inr u"
  shows "\<exists>r. extractLinks env html baseURL = Returns r"
proof (cases "goquery_a_href env html")
  case (Inl err)
  then show ?thesis by (simp add: extractLinks_def)
next
  case (Inr sel)
  from extractLinks_each_returns [of u sel "[]"] obtain r
    where "extractLinks_each (Some u) sel [] = Returns r" by blast
  with Inr assms show ?thesis by (simp add: extractLinks_def)
qed

lemma bfs_body_returns:
  assumes "fetcher_ok fetcher"
  shows "\<exists>q'. fst (bfs_body env fetcher domain q s) = Returns q'"
proof -
  obtain result err s' where f: "fetcher s (items q ! idx q) = ((result, err), s')"
    by (metis surj_pair)
  show ?thesis
  proof (cases err)
    case (Some e)
    with f show ?thesis by (simp add: bfs_body_def split: option.splits)
  next
    case None
    with assms f obtain r u where r: "result = Some r"
      and u: "url_Parse (items q ! idx q) = Inr u"
      unfolding fetcher_ok_def by blast
    from extractLinks_returns [OF u, of env "HTML r"] obtain x
      where "extractLinks env (HTML r) (items q ! idx q) = Returns x" by blast
    with f None r show ?thesis by (simp add: bfs_body_def split: sum.splits)
  qed
qed

lemma bfs_loop_returns:
  assumes "fetcher_ok fetcher"
  shows "\<exists>q'. fst (bfs_loop env fetcher domain (queue, fs)) = Returns q'"
proof (cases "fst (bfs_loop env fetcher domain (queue, fs))")
  case (Returns q')
  then show ?thesis by blast
next
  case (Panics p)
  then obtain fs' where "bfs_loop env fetcher domain (queue, fs) = (Panics p, fs')"
    by (cases "bfs_loop env fetcher domain (queue, fs)") simp
  with bfs_loop_invariant [where I = "\<lambda>q s. True" and env = env and fetcher = fetcher
      and domain = domain and queue = queue and fs = fs]
  obtain q s where "bfs_body env fetcher domain q s = (Panics p, fs')"
    by auto
  with bfs_body_returns [OF assms, of env domain q s] show ?thesis by simp
qed

text \<open>
  C10. Let the starting URL parse and the sitemap attempt not yield a non-empty list,
  so that the link crawl is taken. Then \<open>DiscoverAll\<close> does not return an error, and a
  list it returns is not empty and starts with \<open>NormalizeURL(startURL)\<close>: the seed is
  added without passing the filter, whatever the fetcher does and also when the seed is
  a static asset. With a fetcher that keeps the conventions of the interface the call
  does return a list.
\<close>

theorem DiscoverAll_seed_first:
  assumes "url_Parse baseURL = Inr parsed"
    and "\<nexists>found. discoverFromSitemap env (sitemapURLStr parsed) (Host parsed) = Inr found
           \<and> found \<noteq> []"
  shows "(\<forall>urls. fst (DiscoverAll env baseURL fetcher fs) = Returns (Inr urls)
            \<longrightarrow> urls \<noteq> [] \<and> hd urls = NormalizeURL baseURL)
     \<and> (\<forall>e. fst (DiscoverAll env baseURL fetcher fs) \<noteq> Returns (Inl e))
     \<and> (fetcher_ok fetcher \<longrightarrow> (\<exists>urls. fst (DiscoverAll env baseURL fetcher fs) = Returns (Inr urls)))"
proof -
  from assms have d: "DiscoverAll env baseURL fetcher fs
      = discoverFromLinks env baseURL (Host parsed) fetcher fs"
    by (auto simp: DiscoverAll_def Let_def split: sum.splits)
  have a: "\<forall>urls. fst (DiscoverAll env baseURL fetcher fs) = Returns (Inr urls)
            \<longrightarrow> urls \<noteq> [] \<and> hd urls = NormalizeURL baseURL"
    using discoverFromLinks_seed_first [of env baseURL "Host parsed" fetcher fs]
    unfolding d by auto
  have b: "\<forall>e. fst (DiscoverAll env baseURL fetcher fs) \<noteq> Returns (Inl e)"
    unfolding d by (simp add: discoverFromLinks_def split: prod.splits outcome.splits)
  have c: "fetcher_ok fetcher
      \<longrightarrow> (\<exists>urls. fst (DiscoverAll env baseURL fetcher fs) = Returns (Inr urls))"
  proof
    assume "fetcher_ok fetcher"
    from bfs_loop_returns [OF this, of env "Host parsed" "Queue_Add NewQueue (NormalizeURL baseURL)" fs]
    show "\<exists>urls. fst (DiscoverAll env baseURL fetcher fs) = Returns (Inr urls)"
      unfolding d by (auto simp: discoverFromLinks_def split: prod.splits outcome.splits)
  qed
  from a b c show ?thesis by blast
qed

theorem DiscoverAll_seed_first_witness:
  "IsStaticAsset ''https://x.com/logo.png''
   \<and> fetcher_ok failing
   \<and> (\<exists>urls. fst (DiscoverAll refusing ''https://x.com/logo.png'' failing ()) = Returns (Inr urls)
         \<and> urls \<noteq> [] \<and> hd urls = NormalizeURL ''https://x.com/logo.png'')"
proof -
  let ?u = "\<lparr>Scheme = ''https'', Opaque = [], User = None, Host = ''x.com'',
      Path = ''/logo.png'', RawPath = [], OmitHost = False, ForceQuery = False,
      RawQuery = [], Fragment = [], RawFragment = []\<rparr>"
  have p: "url_Parse ''https://x.com/logo.png'' = Inr ?u"
    by code_simp
  have "discoverFromSitemap refusing (sitemapURLStr ?u) (Host ?u)
      = Inl (ExternalError ''connection refused'')"
    by code_simp
  then have s: "\<nexists>found. discoverFromSitemap refusing (sitemapURLStr ?u) (Host ?u) = Inr found
      \<and> found \<noteq> []"
    by simp
  have ok: "fetcher_ok failing"
    by (simp add: fetcher_ok_def failing_def)
  have st: "IsStaticAsset ''https://x.com/logo.png''"
    by code_simp
  from DiscoverAll_seed_first [OF p s, of failing "()"] ok st
  show ?thesis by blast
qed

section \<open>The scope of the result\<close>





text \<open>
  The filter runs before the normalization, and stripping a trailing slash can uncover
  an extension: a sitemap entry \<open>https://x.com/logo.png/\<close> passes the filter and is
  returned as \<open>https://x.com/logo.png\<close>.
\<close>

lemma filter_before_normalize:
  "\<not> IsStaticAsset ''https://x.com/logo.png/''
   \<and> IsSameDomain ''https://x.com/logo.png/'' ''x.com''
   \<and> NormalizeURL ''https://x.com/logo.png/'' = ''https://x.com/logo.png''
   \<and> IsStaticAsset (NormalizeURL ''https://x.com/logo.png/'')"
  by code_simp

section \<open>Normalization\<close>


lemma HasSuffix_slash: "HasSuffix s ''/'' = (s \<noteq> [] \<and> last s = CHR ''/'')"
proof (cases s rule: rev_cases)
  case Nil
  then show ?thesis by (simp add: HasSuffix_def)
next
  case (snoc ys y)
  then show ?thesis by (simp add: HasSuffix_def)
qed

lemma HasSuffix_two_slashes:
  "HasSuffix (ys @ [CHR ''/'']) ''//'' = (ys \<noteq> [] \<and> last ys = CHR ''/'')"
proof (cases ys rule: rev_cases)
  case Nil
  then show ?thesis by (simp add: HasSuffix_def)
next
  case (snoc zs z)
  then show ?thesis by (simp add: HasSuffix_def)
qed

lemma TrimSuffix_slash_twice:
  assumes "\<not> HasSuffix s ''//''"
  shows "TrimSuffix (TrimSuffix s ''/'') ''/'' = TrimSuffix s ''/''"
proof (cases "HasSuffix s ''/''")
  case False
  then show ?thesis by (simp add: TrimSuffix_def)
next
  case True
  then obtain ys where s: "s = ys @ [CHR ''/'']"
    by (cases s rule: rev_cases) (auto simp: HasSuffix_slash)
  with assms have "\<not> HasSuffix ys ''/''"
    by (simp add: HasSuffix_two_slashes HasSuffix_slash)
  moreover from s True have "TrimSuffix s ''/'' = ys"
    by (simp add: TrimSuffix_def)
  ultimately show ?thesis by (simp add: TrimSuffix_def)
qed

lemma TrimSuffix_slash_not_root:
  assumes "\<not> HasSuffix s ''//''" and "s \<noteq> ''/''"
  shows "TrimSuffix s ''/'' \<noteq> ''/''"
proof (cases "HasSuffix s ''/''")
  case False
  with assms(2) show ?thesis by (simp add: TrimSuffix_def)
next
  case True
  then obtain ys where s: "s = ys @ [CHR ''/'']"
    by (cases s rule: rev_cases) (auto simp: HasSuffix_slash)
  with assms(1) have "ys = [] \<or> last ys \<noteq> CHR ''/''"
    by (simp add: HasSuffix_two_slashes)
  then have "ys \<noteq> ''/''" by auto
  with s True show ?thesis by (simp add: TrimSuffix_def)
qed


lemma normalized_twice:
  assumes "\<not> HasSuffix (Path p) ''//''"
  shows "normalized (normalized p) = normalized p"
proof (cases "Path p = ''/''")
  case True
  then show ?thesis by (simp add: normalized_def)
next
  case False
  with TrimSuffix_slash_twice [OF assms] TrimSuffix_slash_not_root [OF assms False]
  show ?thesis by (simp add: normalized_def)
qed




text \<open>
  A second way to lose idempotence, apart from the slashes: a URL without host whose
  path begins with two slashes is rendered with nothing before the path, and the next
  pass reads the start of the path as an authority. Here the path does not end in two
  slashes.
\<close>

lemma NormalizeURL_reread_differs:
  "NormalizeURL ''/%2Fa@b@c/'' = ''//a@b@c''
   \<and> NormalizeURL (NormalizeURL ''/%2Fa@b@c/'') = ''//a%40b@c''"
  by code_simp



section \<open>Link resolution\<close>

lemma ResolveReference_returns: "\<exists>resolved. ResolveReference (Some base) ref = Returns resolved"
  by (simp add: ResolveReference_def)

lemma docs_page_links:
  assumes "goquery_a_href env html
      = Inr [(''../intro'', True), (''#section'', True), (''mailto:a@b.com'', True)]"
  shows "extractLinks env html ''https://x.com/docs/'' = Returns (Inr [''https://x.com/intro''])"
proof -
  let ?b = "\<lparr>Scheme = ''https'', Opaque = [], User = None, Host = ''x.com'',
      Path = ''/docs/'', RawPath = [], OmitHost = False, ForceQuery = False,
      RawQuery = [], Fragment = [], RawFragment = []\<rparr>"
  have b: "url_Parse ''https://x.com/docs/'' = Inr ?b"
    by code_simp
  have e: "extractLinks_each (Some ?b)
      [(''../intro'', True), (''#section'', True), (''mailto:a@b.com'', True)] []
      = Returns [''https://x.com/intro'']"
    by code_simp
  from assms b e show ?thesis by (simp add: extractLinks_def)
qed

text \<open>
  C8. For every \<open>href\<close> and every base URL: the resolver returns the empty string, and
  the extractor emits nothing, when the \<open>href\<close> begins with \<open>mailto:\<close>, \<open>javascript:\<close>,
  \<open>tel:\<close> or \<open>#\<close>, and when the \<open>href\<close> does not parse; otherwise it returns the
  \<open>href\<close> resolved against the base by \<open>ResolveReference\<close>, rendered with the fragment
  cleared. A page at \<open>https://x.com/docs/\<close> with the anchors \<open>../intro\<close>, \<open>#section\<close> and
  \<open>mailto:a@b.com\<close> yields the one link \<open>https://x.com/intro\<close>.
\<close>

theorem resolveURL_rules:
  "(HasPrefix href ''mailto:'' \<or> HasPrefix href ''javascript:''
      \<or> HasPrefix href ''tel:'' \<or> HasPrefix href ''#''
      \<longrightarrow> resolveURL href (Some base) = Returns []
         \<and> extractLinks_each (Some base) [(href, True)] links = Returns links)
   \<and> ((\<exists>e. url_Parse href = Inl e)
      \<longrightarrow> resolveURL href (Some base) = Returns []
         \<and> extractLinks_each (Some base) [(href, True)] links = Returns links)
   \<and> (\<forall>ref. \<not> HasPrefix href ''mailto:'' \<and> \<not> HasPrefix href ''javascript:''
        \<and> \<not> HasPrefix href ''tel:'' \<and> \<not> HasPrefix href ''#''
        \<and> url_Parse href = Inr ref
      \<longrightarrow> (\<exists>resolved. ResolveReference (Some base) ref = Returns resolved
            \<and> resolveURL href (Some base) = Returns (URL_String (resolved\<lparr>Fragment := []\<rparr>))))
   \<and> (goquery_a_href env html
        = Inr [(''../intro'', True), (''#section'', True), (''mailto:a@b.com'', True)]
      \<longrightarrow> extractLinks env html ''https://x.com/docs/'' = Returns (Inr [''https://x.com/intro'']))"
proof (intro conjI allI impI)
  assume h: "HasPrefix href ''mailto:'' \<or> HasPrefix href ''javascript:''
      \<or> HasPrefix href ''tel:'' \<or> HasPrefix href ''#''"
  then show r: "resolveURL href (Some base) = Returns []"
    by (simp add: resolveURL_def)
  then show "extractLinks_each (Some base) [(href, True)] links = Returns links"
    by simp
next
  assume "\<exists>e. url_Parse href = Inl e"
  then show r: "resolveURL href (Some base) = Returns []"
    by (auto simp: resolveURL_def)
  then show "extractLinks_each (Some base) [(href, True)] links = Returns links"
    by simp
next
  fix ref
  assume h: "\<not> HasPrefix href ''mailto:'' \<and> \<not> HasPrefix href ''javascript:''
        \<and> \<not> HasPrefix href ''tel:'' \<and> \<not> HasPrefix href ''#''
        \<and> url_Parse href = Inr ref"
  from ResolveReference_returns [of base ref] obtain resolved
    where "ResolveReference (Some base) ref = Returns resolved" by blast
  with h show "\<exists>resolved. ResolveReference (Some base) ref = Returns resolved
      \<and> resolveURL href (Some base) = Returns (URL_String (resolved\<lparr>Fragment := []\<rparr>))"
    by (simp add: resolveURL_def)
next
  assume "goquery_a_href env html
      = Inr [(''../intro'', True), (''#section'', True), (''mailto:a@b.com'', True)]"
  then show "extractLinks env html ''https://x.com/docs/'' = Returns (Inr [''https://x.com/intro''])"
    by (rule docs_page_links)
qed

theorem resolveURL_rules_witness:
  "resolveURL ''mailto:a@b.com''
      (Some \<lparr>Scheme = ''https'', Opaque = [], User = None, Host = ''x.com'',
        Path = ''/docs/'', RawPath = [], OmitHost = False, ForceQuery = False,
        RawQuery = [], Fragment = [], RawFragment = []\<rparr>) = Returns []
   \<and> resolveURL ''%zz''
      (Some \<lparr>Scheme = ''https'', Opaque = [], User = None, Host = ''x.com'',
        Path = ''/docs/'', RawPath = [], OmitHost = False, ForceQuery = False,
        RawQuery = [], Fragment = [], RawFragment = []\<rparr>) = Returns []
   \<and> resolveURL ''../intro#top''
      (Some \<lparr>Scheme = ''https'', Opaque = [], User = None, Host = ''x.com'',
        Path = ''/docs/'', RawPath = [], OmitHost = False, ForceQuery = False,
        RawQuery = [], Fragment = [], RawFragment = []\<rparr>) = Returns ''https://x.com/intro''
   \<and> extractLinks docs_page ''<html></html>'' ''https://x.com/docs/''
       = Returns (Inr [''https://x.com/intro''])"
proof -
  let ?b = "\<lparr>Scheme = ''https'', Opaque = [], User = None, Host = ''x.com'',
      Path = ''/docs/'', RawPath = [], OmitHost = False, ForceQuery = False,
      RawQuery = [], Fragment = [], RawFragment = []\<rparr>"
  let ?ref = "\<lparr>Scheme = [], Opaque = [], User = None, Host = [],
      Path = ''../intro'', RawPath = [], OmitHost = False, ForceQuery = False,
      RawQuery = [], Fragment = ''top'', RawFragment = []\<rparr>"
  let ?res = "\<lparr>Scheme = ''https'', Opaque = [], User = None, Host = ''x.com'',
      Path = ''/intro'', RawPath = [], OmitHost = False, ForceQuery = False,
      RawQuery = [], Fragment = ''top'', RawFragment = []\<rparr>"
  have m: "HasPrefix ''mailto:a@b.com'' ''mailto:''"
    by code_simp
  have z: "url_Parse ''%zz'' = Inl (EscapeError ''%zz'')"
    by code_simp
  have n: "\<not> HasPrefix ''../intro#top'' ''mailto:'' \<and> \<not> HasPrefix ''../intro#top'' ''javascript:''
      \<and> \<not> HasPrefix ''../intro#top'' ''tel:'' \<and> \<not> HasPrefix ''../intro#top'' ''#''"
    by code_simp
  have r: "url_Parse ''../intro#top'' = Inr ?ref"
    by code_simp
  have rr: "ResolveReference (Some ?b) ?ref = Returns ?res"
    by code_simp
  have s: "URL_String (?res\<lparr>Fragment := []\<rparr>) = ''https://x.com/intro''"
    by code_simp
  have g: "goquery_a_href docs_page ''<html></html>''
      = Inr [(''../intro'', True), (''#section'', True), (''mailto:a@b.com'', True)]"
    by (simp add: docs_page_def)
  from resolveURL_rules [of "''mailto:a@b.com''" ?b "[]" docs_page "''<html></html>''"] m g
  have a: "resolveURL ''mailto:a@b.com'' (Some ?b) = Returns []"
    and d: "extractLinks docs_page ''<html></html>'' ''https://x.com/docs/''
       = Returns (Inr [''https://x.com/intro''])"
    by simp_all
  from resolveURL_rules [of "''%zz''" ?b "[]" docs_page "''<html></html>''"] z
  have b: "resolveURL ''%zz'' (Some ?b) = Returns []"
    by simp
  from resolveURL_rules [of "''../intro#top''" ?b "[]" docs_page "''<html></html>''"] n r rr s
  have c: "resolveURL ''../intro#top'' (Some ?b) = Returns ''https://x.com/intro''"
    by simp
  from a b c d show ?thesis by simp
qed

text \<open>
  The resolution is that of RFC 3986: some of the examples of its section 5.4, against
  the base \<open>http://a/b/c/d;p?q\<close>.
\<close>

lemma resolveURL_rfc3986:
  assumes "b = \<lparr>Scheme = ''http'', Opaque = [], User = None, Host = ''a'',
      Path = ''/b/c/d;p'', RawPath = [], OmitHost = False, ForceQuery = False,
      RawQuery = ''q'', Fragment = [], RawFragment = []\<rparr>"
  shows "resolveURL ''g'' (Some b) = Returns ''http://a/b/c/g''
   \<and> resolveURL ''./g'' (Some b) = Returns ''http://a/b/c/g''
   \<and> resolveURL ''/g'' (Some b) = Returns ''http://a/g''
   \<and> resolveURL ''//g'' (Some b) = Returns ''http://g''
   \<and> resolveURL ''?y'' (Some b) = Returns ''http://a/b/c/d;p?y''
   \<and> resolveURL ''g#s'' (Some b) = Returns ''http://a/b/c/g''
   \<and> resolveURL ''..'' (Some b) = Returns ''http://a/b/''
   \<and> resolveURL ''../../g'' (Some b) = Returns ''http://a/g''
   \<and> resolveURL ''../../../g'' (Some b) = Returns ''http://a/g''
   \<and> resolveURL ''g/../h'' (Some b) = Returns ''http://a/b/c/h''"
  unfolding assms by code_simp

section \<open>The page cap on a ring of pages\<close>







subsection \<open>A ring of 300 pages\<close>




























end
